theory Spec2Isabelle
  imports Main "HOL-Library.Signed_Division"
begin

section \<open>Data model of \<open>ALG_LAB4.cpp\<close>\<close>

text \<open>
  The C++ type \<open>int\<close> is the 32-bit two's complement integer.  The model computes on
  \<open>int\<close> and passes the result of every operation of the program that can leave the range
  from \<open>INT_MIN\<close> to \<open>INT_MAX\<close> through \<open>c_int\<close>: signed overflow is undefined behaviour.
  These operations are \<open>abs\<close> and the negation in \<open>get_inc_matrix\<close> and the arithmetic on
  the arguments at the head of \<open>generate_graph\<close>; the counters of the loops are compared with
  a bound before they are incremented.  The sizes of the vectors are taken to fit \<open>int\<close>, and
  a vector whose size does is taken to be allocated: exhausted memory is not modelled.
  A \<open>vector\<close> is a list.  \<open>operator[]\<close> of \<open>std::vector\<close> does not check its index: an index
  outside the vector is undefined behaviour, which the model makes a value of its own
  (\<open>UndefinedBehaviour\<close>).  A \<open>vector\<close> constructed with a negative element count
  throws \<open>std::length_error\<close> (\<open>LengthError\<close>).  The program defines no error
  condition of its own.
\<close>

datatype error = UndefinedBehaviour | LengthError

definition INT_MAX :: int where
  "INT_MAX = 2147483647"

definition INT_MIN :: int where
  "INT_MIN = - 2147483648"

definition c_int :: "int \<Rightarrow> error + int" where
  "c_int x = (if INT_MIN \<le> x \<and> x \<le> INT_MAX then Inr x else Inl UndefinedBehaviour)"

definition bind_r :: "error + 'a \<Rightarrow> ('a \<Rightarrow> error + 'b) \<Rightarrow> error + 'b" where
  "bind_r m f = (case m of Inl e \<Rightarrow> Inl e | Inr x \<Rightarrow> f x)"

text \<open>\<open>xs[i]\<close> read and \<open>xs[i] = x\<close> for a \<open>vector\<close> and an \<open>int\<close> index.\<close>

definition vec_at :: "'a list \<Rightarrow> int \<Rightarrow> error + 'a" where
  "vec_at xs i = (if 0 \<le> i \<and> i < int (length xs) then Inr (xs ! nat i) else Inl UndefinedBehaviour)"

definition vec_set :: "'a list \<Rightarrow> int \<Rightarrow> 'a \<Rightarrow> error + 'a list" where
  "vec_set xs i x = (if 0 \<le> i \<and> i < int (length xs) then Inr (xs[nat i := x]) else Inl UndefinedBehaviour)"

text \<open>\<open>m[i][j]\<close> read and \<open>m[i][j] = x\<close> for a \<open>vector<vector<int>>\<close>.\<close>

definition mat_at :: "'a list list \<Rightarrow> int \<Rightarrow> int \<Rightarrow> error + 'a" where
  "mat_at m i j = bind_r (vec_at m i) (\<lambda>row. vec_at row j)"

definition mat_set :: "'a list list \<Rightarrow> int \<Rightarrow> int \<Rightarrow> 'a \<Rightarrow> error + 'a list list" where
  "mat_set m i j x =
     bind_r (vec_at m i) (\<lambda>row. bind_r (vec_set row j x) (\<lambda>row'. vec_set m i row'))"

text \<open>
  The private members of \<open>class Graph\<close> (\<open>vertices_\<close>, \<open>directed_\<close>, \<open>adj_matrix_\<close>,
  \<open>adj_list_\<close>, \<open>edges_\<close>, \<open>inc_matrix_\<close>); the trailing underscore of the source is
  written as the prefix \<open>m_\<close>.
\<close>

record graph =
  m_vertices :: int
  m_directed :: bool
  m_adj_matrix :: "int list list"
  m_adj_list :: "(int \<times> int) list list"
  m_edges :: "(int \<times> int) list"
  m_inc_matrix :: "int list list"

text \<open>\<open>Graph::Graph(int vertices, bool directed)\<close>; \<open>edges_\<close> and \<open>inc_matrix_\<close> start empty.\<close>

definition Graph :: "int \<Rightarrow> bool \<Rightarrow> error + graph" where
  "Graph vertices directed =
     (if vertices < 0 then Inl LengthError
      else Inr \<lparr> m_vertices = vertices, m_directed = directed,
                 m_adj_matrix = replicate (nat vertices) (replicate (nat vertices) 0),
                 m_adj_list = replicate (nat vertices) [],
                 m_edges = [], m_inc_matrix = [] \<rparr>)"

text \<open>
  \<open>Graph::add_edge\<close>.  The statements in source order: \<open>adj_matrix_[u][v] = weight\<close>,
  \<open>adj_list_[u].push_back\<close>, \<open>edges_.push_back\<close>, then the branch on \<open>directed_\<close>;
  in the undirected branch \<open>adj_matrix_[u][v] = adj_matrix_[v][u] = weight\<close> assigns
  \<open>[v][u]\<close> first.
\<close>

definition add_edge :: "graph \<Rightarrow> int \<Rightarrow> int \<Rightarrow> int \<Rightarrow> error + graph" where
  "add_edge g u v weight =
     bind_r (mat_set (m_adj_matrix g) u v weight) (\<lambda>am1.
     bind_r (vec_at (m_adj_list g) u) (\<lambda>lu.
     bind_r (vec_set (m_adj_list g) u (lu @ [(v, weight)])) (\<lambda>al.
     let es = m_edges g @ [(u, v)] in
     if m_directed g then
       bind_r (mat_set am1 u v weight) (\<lambda>am2.
       Inr (g\<lparr> m_adj_matrix := am2, m_adj_list := al, m_edges := es \<rparr>))
     else
       bind_r (mat_set am1 v u weight) (\<lambda>am2.
       bind_r (mat_set am2 u v weight) (\<lambda>am3.
       Inr (g\<lparr> m_adj_matrix := am3, m_adj_list := al, m_edges := es \<rparr>))))))"

text \<open>The accessors return copies of the members.\<close>

definition get_adj_matrix :: "graph \<Rightarrow> int list list" where
  "get_adj_matrix g = m_adj_matrix g"

definition get_adj_list :: "graph \<Rightarrow> (int \<times> int) list list" where
  "get_adj_list g = m_adj_list g"

definition get_edges :: "graph \<Rightarrow> (int \<times> int) list" where
  "get_edges g = m_edges g"

text \<open>
  \<open>Graph::get_inc_matrix\<close>.  \<open>inc_loop\<close> is the \<open>for\<close> loop over the edge indices,
  from \<open>i\<close> on; the function returns the matrix together with the graph, whose
  \<open>inc_matrix_\<close> member it may have filled.  \<open>abs\<close> of \<open>INT_MIN\<close> is not an \<open>int\<close>:
  undefined behaviour.
\<close>

function inc_loop :: "graph \<Rightarrow> nat \<Rightarrow> int list list \<Rightarrow> error + int list list" where
  "inc_loop g i inc =
     (if i < length (m_edges g) then
        (let u = fst (m_edges g ! i); v = snd (m_edges g ! i) in
         bind_r (mat_at (m_adj_matrix g) u v) (\<lambda>a.
         bind_r (c_int \<bar>a\<bar>) (\<lambda>weight.
         bind_r (mat_set inc u (int i) weight) (\<lambda>inc1.
         bind_r (if m_directed g then c_int (- weight) else Inr weight) (\<lambda>signed.
         bind_r (mat_set inc1 v (int i) signed) (\<lambda>inc2.
         inc_loop g (Suc i) inc2))))))
      else Inr inc)"
  by pat_completeness auto
termination
  by (relation "measure (\<lambda>(g, i, inc). length (m_edges g) - i)") auto

declare inc_loop.simps [simp del]

definition get_inc_matrix :: "graph \<Rightarrow> error + (int list list \<times> graph)" where
  "get_inc_matrix g =
     (if m_inc_matrix g = [] then
        (if m_vertices g < 0 then Inl LengthError
         else bind_r (inc_loop g 0 (replicate (nat (m_vertices g)) (replicate (length (m_edges g)) 0)))
                (\<lambda>inc. Inr (inc, g\<lparr> m_inc_matrix := inc \<rparr>)))
      else Inr (m_inc_matrix g, g))"

text \<open>
  The graphs the class can hold: the constructor gives a square matrix of side
  \<open>vertices_\<close> and as many adjacency lists, \<open>add_edge\<close> keeps the shapes and records
  only edges whose ends it has just used as indices.
\<close>

definition graph_ok :: "graph \<Rightarrow> bool" where
  "graph_ok g \<longleftrightarrow>
     0 \<le> m_vertices g \<and>
     length (m_adj_matrix g) = nat (m_vertices g) \<and>
     (\<forall>row \<in> set (m_adj_matrix g). length row = nat (m_vertices g)) \<and>
     length (m_adj_list g) = nat (m_vertices g) \<and>
     (\<forall>e \<in> set (m_edges g). 0 \<le> fst e \<and> fst e < m_vertices g \<and> 0 \<le> snd e \<and> snd e < m_vertices g)"

text \<open>Writing one entry of a matrix, with indices known to be in range.\<close>

definition mat_upd :: "'a list list \<Rightarrow> nat \<Rightarrow> nat \<Rightarrow> 'a \<Rightarrow> 'a list list" where
  "mat_upd m i j x = m[i := (m ! i)[j := x]]"

text \<open>The adjacency matrix is symmetric.\<close>

definition symmetric :: "graph \<Rightarrow> bool" where
  "symmetric g \<longleftrightarrow>
     (\<forall>i j. i < nat (m_vertices g) \<and> j < nat (m_vertices g)
        \<longrightarrow> m_adj_matrix g ! i ! j = m_adj_matrix g ! j ! i)"

subsection \<open>Concrete graphs\<close>

text \<open>\<open>Graph(1, true)\<close>, \<open>Graph(2, false)\<close> and \<open>Graph(2, true)\<close> as the constructor leaves them.\<close>

definition graph1d :: graph where
  "graph1d = \<lparr> m_vertices = 1, m_directed = True, m_adj_matrix = [[0]], m_adj_list = [[]],
               m_edges = [], m_inc_matrix = [] \<rparr>"

definition graph2u :: graph where
  "graph2u = \<lparr> m_vertices = 2, m_directed = False, m_adj_matrix = [[0, 0], [0, 0]],
               m_adj_list = [[], []], m_edges = [], m_inc_matrix = [] \<rparr>"

definition graph2d :: graph where
  "graph2d = \<lparr> m_vertices = 2, m_directed = True, m_adj_matrix = [[0, 0], [0, 0]],
               m_adj_list = [[], []], m_edges = [], m_inc_matrix = [] \<rparr>"

text \<open>\<open>Graph(1, true)\<close> after \<open>add_edge(0, 0, 5)\<close>, \<open>Graph(2, false)\<close> after
  \<open>add_edge(0, 1, INT_MIN)\<close>, and the graph of the scenario of the specification: \<open>Graph(3, false)\<close> after \<open>add_edge(0, 1, 2)\<close> and \<open>add_edge(1, 2, 3)\<close>.\<close>

definition graph1d_loop :: graph where
  "graph1d_loop = \<lparr> m_vertices = 1, m_directed = True, m_adj_matrix = [[5]], m_adj_list = [[(0, 5)]],
               m_edges = [(0, 0)], m_inc_matrix = [] \<rparr>"

definition graph2u_min :: graph where
  "graph2u_min = \<lparr> m_vertices = 2, m_directed = False,
                   m_adj_matrix = [[0, - 2147483648], [- 2147483648, 0]],
                   m_adj_list = [[(1, - 2147483648)], []],
                   m_edges = [(0, 1)], m_inc_matrix = [] \<rparr>"

definition scenario3 :: graph where
  "scenario3 = \<lparr> m_vertices = 3, m_directed = False,
                  m_adj_matrix = [[0, 2, 0], [2, 0, 3], [0, 3, 0]],
                  m_adj_list = [[(1, 2)], [(2, 3)], []],
                  m_edges = [(0, 1), (1, 2)], m_inc_matrix = [] \<rparr>"

subsection \<open>Sequences of calls on one graph\<close>

text \<open>
  A caller's sequence of \<open>add_edge\<close> and \<open>get_inc_matrix\<close> calls on one \<open>Graph\<close> object;
  \<open>run\<close> returns the matrices the \<open>get_inc_matrix\<close> calls returned, in call order, and the
  final object.  \<open>cached m g\<close>: every later \<open>get_inc_matrix\<close> on \<open>g\<close> answers \<open>m\<close> (the
  member holds \<open>m\<close>, or the graph has no vertex and so no edge).
\<close>

datatype call = AddEdge int int int | GetIncMatrix

fun run :: "graph \<Rightarrow> call list \<Rightarrow> error + (int list list list \<times> graph)" where
  "run g [] = Inr ([], g)"
| "run g (AddEdge u v w # cs) = bind_r (add_edge g u v w) (\<lambda>g'. run g' cs)"
| "run g (GetIncMatrix # cs) =
     bind_r (get_inc_matrix g) (\<lambda>(m, g').
     bind_r (run g' cs) (\<lambda>(ms, g''). Inr (m # ms, g'')))"

definition cached :: "int list list \<Rightarrow> graph \<Rightarrow> bool" where
  "cached m g \<longleftrightarrow>
     (m_inc_matrix g = m \<and> m \<noteq> []) \<or>
     (m = [] \<and> m_vertices g = 0 \<and> m_inc_matrix g = [] \<and> m_edges g = [])"

text \<open>
  A caller's sequence of \<open>add_edge\<close> calls on one \<open>Graph\<close> object, each given by its arguments
  \<open>(u, v, weight)\<close>.
\<close>

fun add_edges :: "graph \<Rightarrow> (int \<times> int \<times> int) list \<Rightarrow> error + graph" where
  "add_edges g [] = Inr g"
| "add_edges g ((u, v, w) # es) = bind_r (add_edge g u v w) (\<lambda>g'. add_edges g' es)"

text \<open>
  Two graphs of the class that differ at most in the adjacency lists and in the entries of the
  adjacency matrix that \<open>add_edge(u, v, _)\<close> writes.
\<close>

definition agree_off :: "int \<Rightarrow> int \<Rightarrow> graph \<Rightarrow> graph \<Rightarrow> bool" where
  "agree_off u v g g' \<longleftrightarrow>
     graph_ok g \<and> graph_ok g' \<and> m_vertices g' = m_vertices g \<and> m_directed g' = m_directed g \<and>
     m_edges g' = m_edges g \<and> m_inc_matrix g' = m_inc_matrix g \<and>
     (\<forall>i j. \<not> (i = nat u \<and> j = nat v) \<and> \<not> (\<not> m_directed g \<and> i = nat v \<and> j = nat u)
        \<longrightarrow> m_adj_matrix g' ! i ! j = m_adj_matrix g ! i ! j)"

section \<open>The random graph generator\<close>

text \<open>
  \<open>a % b\<close> on \<open>int\<close>: undefined for \<open>b = 0\<close> and where the quotient is not an \<open>int\<close>
  (\<open>INT_MIN % -1\<close>), otherwise the remainder of the division that truncates towards zero.
\<close>

definition c_mod :: "int \<Rightarrow> int \<Rightarrow> error + int" where
  "c_mod a b = (if b = 0 \<or> (a = INT_MIN \<and> b = - 1) then Inl UndefinedBehaviour else Inr (a smod b))"

text \<open>
  The locals of \<open>generate_graph\<close> that its \<open>while\<close> loop changes.  \<open>rand()\<close> is a stream
  \<open>rnd\<close> of values, the one \<open>srand(time(0))\<close> selected, and \<open>gs_pos\<close> counts the values taken;
  \<open>rand()\<close> returns values from 0 to \<open>RAND_MAX\<close>.
\<close>

record gen_state =
  gs_g :: graph
  gs_num_edges :: int
  gs_edges_per_vertex :: "int list"
  gs_incoming_edges_per_vertex :: "int list"
  gs_outgoing_edges_per_vertex :: "int list"
  gs_pos :: nat

text \<open>
  One pass through the body of the \<open>while\<close> loop.  Each \<open>continue\<close> and the end of the body
  return the flag \<open>False\<close>, the \<open>break\<close> returns \<open>True\<close>.  The conditions are read with the
  short-circuit order of \<open>||\<close> and \<open>&&\<close>.
\<close>

definition loop_body ::
  "(nat \<Rightarrow> int) \<Rightarrow> int \<Rightarrow> int \<Rightarrow> bool \<Rightarrow> int \<Rightarrow> int \<Rightarrow> gen_state \<Rightarrow> error + (bool \<times> gen_state)" where
  "loop_body rnd num_vertices max_possible_edges_per_vertex directed max_incoming_edges max_outgoing_edges s =
     bind_r (c_mod (rnd (gs_pos s)) num_vertices) (\<lambda>u.
     bind_r (c_mod (rnd (gs_pos s + 1)) num_vertices) (\<lambda>v.
     let s1 = s\<lparr> gs_pos := gs_pos s + 2 \<rparr> in
     if u = v then Inr (False, s1) else
     bind_r (vec_at (gs_edges_per_vertex s) u) (\<lambda>eu.
     if eu \<ge> max_possible_edges_per_vertex then Inr (False, s1) else
     bind_r (vec_at (gs_edges_per_vertex s) v) (\<lambda>ev.
     if ev \<ge> max_possible_edges_per_vertex then Inr (False, s1) else
     bind_r (if directed
             then bind_r (vec_at (gs_incoming_edges_per_vertex s) v) (\<lambda>iv.
                  if iv \<ge> max_incoming_edges then Inr True
                  else bind_r (vec_at (gs_outgoing_edges_per_vertex s) u) (\<lambda>ou.
                       Inr (ou \<ge> max_outgoing_edges)))
             else Inr False) (\<lambda>capped.
     if capped then Inr (False, s1) else
     bind_r (mat_at (get_adj_matrix (gs_g s)) u v) (\<lambda>a.
     if a \<noteq> 0 then Inr (False, s1) else
     bind_r (c_mod (rnd (gs_pos s + 2)) 100) (\<lambda>r.
     let weight = r + 1 in
     bind_r (add_edge (gs_g s) u v weight) (\<lambda>g'.
     let num_edges = gs_num_edges s - 1 in
     bind_r (vec_set (gs_edges_per_vertex s) u (eu + 1)) (\<lambda>epv1.
     bind_r (vec_at epv1 v) (\<lambda>ev1.
     bind_r (vec_set epv1 v (ev1 + 1)) (\<lambda>epv2.
     bind_r (if directed
             then bind_r (vec_at (gs_incoming_edges_per_vertex s) v) (\<lambda>iv.
                  bind_r (vec_set (gs_incoming_edges_per_vertex s) v (iv + 1)) (\<lambda>inc'.
                  bind_r (vec_at (gs_outgoing_edges_per_vertex s) u) (\<lambda>ou.
                  bind_r (vec_set (gs_outgoing_edges_per_vertex s) u (ou + 1)) (\<lambda>out'.
                  Inr (inc', out')))))
             else Inr (gs_incoming_edges_per_vertex s, gs_outgoing_edges_per_vertex s)) (\<lambda>(inc', out').
     Inr (num_edges = 0,
          \<lparr> gs_g = g', gs_num_edges = num_edges, gs_edges_per_vertex = epv2,
            gs_incoming_edges_per_vertex = inc', gs_outgoing_edges_per_vertex = out',
            gs_pos = gs_pos s + 3 \<rparr>)))))))))))))"

text \<open>The \<open>while (num_edges > 0)\<close> loop; \<open>None\<close> is a loop that never ends.\<close>

partial_function (option) gen_loop ::
  "(nat \<Rightarrow> int) \<Rightarrow> int \<Rightarrow> int \<Rightarrow> bool \<Rightarrow> int \<Rightarrow> int \<Rightarrow> gen_state \<Rightarrow> (error + graph) option" where
  "gen_loop rnd num_vertices max_possible_edges_per_vertex directed max_incoming_edges max_outgoing_edges s =
     (if gs_num_edges s > 0 then
        (case loop_body rnd num_vertices max_possible_edges_per_vertex directed
                max_incoming_edges max_outgoing_edges s of
           Inl e \<Rightarrow> Some (Inl e)
         | Inr (brk, s') \<Rightarrow>
             if brk then Some (Inr (gs_g s'))
             else gen_loop rnd num_vertices max_possible_edges_per_vertex directed
                    max_incoming_edges max_outgoing_edges s')
      else Some (Inr (gs_g s)))"

text \<open>
  \<open>generate_graph\<close>.  The graph is constructed by \<open>Graph g(num_vertices)\<close>, that is with the
  default \<open>directed = false\<close> of the constructor.  \<open>max_possible_edges\<close> is computed and never
  read, \<open>max_edges_per_vertex\<close> is never read.  The sums, differences and the product of the
  first lines are checked for overflow, operation by operation in the order of evaluation.
\<close>

definition generate_graph ::
  "int \<Rightarrow> int \<Rightarrow> int \<Rightarrow> int \<Rightarrow> int \<Rightarrow> bool \<Rightarrow> int \<Rightarrow> int \<Rightarrow> (nat \<Rightarrow> int) \<Rightarrow> (error + graph) option" where
  "generate_graph min_vertices max_vertices min_edges max_edges max_edges_per_vertex directed
       max_incoming_edges max_outgoing_edges rnd =
     (case bind_r (c_int (max_vertices - min_vertices)) (\<lambda>d.
           bind_r (c_int (d + 1)) (\<lambda>k.
           bind_r (c_mod (rnd 0) k) (\<lambda>r0. c_int (r0 + min_vertices)))) of
        Inl e \<Rightarrow> Some (Inl e)
      | Inr num_vertices \<Rightarrow>
         (case Graph num_vertices False of
            Inl e \<Rightarrow> Some (Inl e)
          | Inr g \<Rightarrow>
             (case bind_r (c_int (num_vertices - 1)) (\<lambda>m.
                   bind_r (c_int (num_vertices * m)) (\<lambda>p. Inr (p sdiv 2))) of
                Inl e \<Rightarrow> Some (Inl e)
              | Inr max_possible_edges \<Rightarrow>
                 (case c_int (num_vertices - 1) of
                    Inl e \<Rightarrow> Some (Inl e)
                  | Inr max_possible_edges_per_vertex \<Rightarrow>
                     (case bind_r (c_int (max_edges - min_edges)) (\<lambda>d.
                           bind_r (c_int (d + 1)) (\<lambda>k.
                           bind_r (c_mod (rnd 1) k) (\<lambda>r1. c_int (r1 + min_edges)))) of
                        Inl e \<Rightarrow> Some (Inl e)
                      | Inr num_edges \<Rightarrow>
                         gen_loop rnd num_vertices max_possible_edges_per_vertex directed
                           max_incoming_edges max_outgoing_edges
                           \<lparr> gs_g = g, gs_num_edges = num_edges,
                             gs_edges_per_vertex = replicate (nat num_vertices) 0,
                             gs_incoming_edges_per_vertex = replicate (nat num_vertices) 0,
                             gs_outgoing_edges_per_vertex = replicate (nat num_vertices) 0,
                             gs_pos = 2 \<rparr>)))))"

text \<open>A stream of \<open>rand()\<close> values that starts with the given ones and goes on with 0.\<close>

definition rand_of :: "int list \<Rightarrow> nat \<Rightarrow> int" where
  "rand_of xs k = (if k < length xs then xs ! k else 0)"

text \<open>
  Invariants of the loop on inputs it cannot satisfy.  \<open>gen_wf\<close>: the shapes of the graph and
  of the three counter vectors.  \<open>gen_inv\<close>: every counter of \<open>edges_per_vertex\<close> is at most
  \<open>n - 1\<close> and the edges still to place are more than these counters leave room for, so that
  more than \<open>n (n - 1) / 2\<close> edges are never placed.  \<open>gen_inv_in\<close> and \<open>gen_inv_out\<close>: the
  same for the in-degree counters and the cap \<open>max_incoming_edges\<close>, and for the out-degree
  counters and the cap \<open>max_outgoing_edges\<close>.
\<close>

definition gen_wf :: "int \<Rightarrow> gen_state \<Rightarrow> bool" where
  "gen_wf n s \<longleftrightarrow>
     graph_ok (gs_g s) \<and> m_vertices (gs_g s) = n \<and>
     length (gs_edges_per_vertex s) = nat n \<and>
     length (gs_incoming_edges_per_vertex s) = nat n \<and>
     length (gs_outgoing_edges_per_vertex s) = nat n"

definition gen_inv :: "int \<Rightarrow> gen_state \<Rightarrow> bool" where
  "gen_inv n s \<longleftrightarrow>
     gen_wf n s \<and>
     (\<forall>x \<in> set (gs_edges_per_vertex s). x \<le> n - 1) \<and>
     n * (n - 1) < 2 * gs_num_edges s + sum_list (gs_edges_per_vertex s)"

definition gen_inv_in :: "int \<Rightarrow> int \<Rightarrow> gen_state \<Rightarrow> bool" where
  "gen_inv_in n cap s \<longleftrightarrow>
     gen_wf n s \<and>
     (\<forall>x \<in> set (gs_incoming_edges_per_vertex s). x \<le> max 0 cap) \<and>
     n * max 0 cap < gs_num_edges s + sum_list (gs_incoming_edges_per_vertex s)"

definition gen_inv_out :: "int \<Rightarrow> int \<Rightarrow> gen_state \<Rightarrow> bool" where
  "gen_inv_out n cap s \<longleftrightarrow>
     gen_wf n s \<and>
     (\<forall>x \<in> set (gs_outgoing_edges_per_vertex s). x \<le> max 0 cap) \<and>
     n * max 0 cap < gs_num_edges s + sum_list (gs_outgoing_edges_per_vertex s)"

section \<open>The path finders\<close>

subsection \<open>Results of accesses\<close>

lemma bind_r_Inr [simp]: "bind_r (Inr x) f = f x"
  by (simp add: bind_r_def)

lemma bind_r_Inl [simp]: "bind_r (Inl e) f = Inl e"
  by (simp add: bind_r_def)

lemma bind_r_eq_Inr: "bind_r m f = Inr y \<longleftrightarrow> (\<exists>x. m = Inr x \<and> f x = Inr y)"
  by (cases m) simp_all

lemma vec_at_Inr: "vec_at xs i = Inr x \<Longrightarrow> 0 \<le> i \<and> i < int (length xs) \<and> x = xs ! nat i"
  by (auto simp: vec_at_def split: if_splits)

lemma vec_set_Inr: "vec_set xs i x = Inr ys \<Longrightarrow> 0 \<le> i \<and> i < int (length xs)"
  by (auto simp: vec_set_def split: if_splits)

lemma vec_set_Inr_eq: "vec_set xs i x = Inr ys \<Longrightarrow> 0 \<le> i \<and> i < int (length xs) \<and> ys = xs[nat i := x]"
  by (auto simp: vec_set_def split: if_splits)

lemma bind_r_cong [fundef_cong]:
  "m = m' \<Longrightarrow> (\<And>x. m' = Inr x \<Longrightarrow> f x = f' x) \<Longrightarrow> bind_r m f = bind_r m' f'"
  by (cases m') (simp_all add: bind_r_def)

subsection \<open>\<open>bfs_shortest_path\<close>\<close>

text \<open>
  The state of the search is \<open>(visited, parent, q)\<close>.  \<open>bfs_scan\<close> is the \<open>for\<close> loop over
  \<open>v\<close> for the vertex \<open>u\<close> just popped, from \<open>v\<close> on; \<open>&&\<close> reads \<open>visited[v]\<close> only when
  the matrix entry is not 0.  The queue is a list with its front at the head.
\<close>

function bfs_scan ::
  "int list list \<Rightarrow> nat \<Rightarrow> int \<Rightarrow> nat \<Rightarrow> int list \<times> int list \<times> int list
   \<Rightarrow> error + (int list \<times> int list \<times> int list)" where
  "bfs_scan adj num_vertices u v (visited, parent, q) =
     (if v < num_vertices then
        bind_r (mat_at adj u (int v)) (\<lambda>a.
        bind_r (if a \<noteq> 0 then bind_r (vec_at visited (int v)) (\<lambda>x. Inr (x = 0)) else Inr False) (\<lambda>c.
        if c then
          bind_r (vec_set visited (int v) 1) (\<lambda>visited'.
          bind_r (vec_set parent (int v) u) (\<lambda>parent'.
          bfs_scan adj num_vertices u (Suc v) (visited', parent', q @ [int v])))
        else bfs_scan adj num_vertices u (Suc v) (visited, parent, q)))
      else Inr (visited, parent, q))"
  by pat_completeness auto
termination
  by (relation "measure (\<lambda>(adj, num_vertices, u, v, st). num_vertices - v)") auto

declare bfs_scan.simps [simp del]

text \<open>
  The number of vertices not yet marked: with the length of the queue it decreases by one in
  each round of the \<open>while\<close> loop, since each push marks a vertex that was not marked.
\<close>

definition unvisited :: "int list \<Rightarrow> nat" where
  "unvisited visited = length (filter (\<lambda>x. x = 0) visited)"

lemma unvisited_mark:
  "i < length xs \<Longrightarrow> xs ! i = 0 \<Longrightarrow> Suc (unvisited (xs[i := 1])) = unvisited xs"
  unfolding unvisited_def
proof (induction xs arbitrary: i)
  case Nil
  then show ?case by simp
next
  case (Cons x xs)
  then show ?case by (cases i) auto
qed

lemma bfs_scan_measure:
  "bfs_scan adj n u v (visited, parent, q) = Inr (visited', parent', q') \<Longrightarrow>
   unvisited visited' + length q' = unvisited visited + length q"
proof (induction "n - v" arbitrary: v visited parent q)
  case 0
  then show ?case by (simp add: bfs_scan.simps)
next
  case (Suc k)
  then have v: "v < n" and k: "k = n - Suc v" by simp_all
  from Suc.prems v obtain a c where a: "mat_at adj u (int v) = Inr a"
    and c: "(if a \<noteq> 0 then bind_r (vec_at visited (int v)) (\<lambda>x. Inr (x = 0)) else Inr False) = Inr c"
    and r: "(if c then
          bind_r (vec_set visited (int v) 1) (\<lambda>visited'.
          bind_r (vec_set parent (int v) u) (\<lambda>parent'.
          bfs_scan adj n u (Suc v) (visited', parent', q @ [int v])))
        else bfs_scan adj n u (Suc v) (visited, parent, q)) = Inr (visited', parent', q')"
    by (subst (asm) bfs_scan.simps) (auto simp: bind_r_eq_Inr)
  show ?case
  proof (cases c)
    case False
    with r Suc.hyps(1)[OF k] show ?thesis by simp
  next
    case True
    with c have z: "vec_at visited (int v) = Inr 0"
      by (auto simp: bind_r_eq_Inr split: if_splits)
    from True r obtain vis1 par1 where
      w: "vec_set visited (int v) 1 = Inr vis1" "vec_set parent (int v) u = Inr par1"
      and rr: "bfs_scan adj n u (Suc v) (vis1, par1, q @ [int v]) = Inr (visited', parent', q')"
      by (auto simp: bind_r_eq_Inr)
    from vec_at_Inr[OF z] vec_set_Inr_eq[OF w(1)]
    have "Suc (unvisited vis1) = unvisited visited"
      by (auto intro: unvisited_mark)
    with Suc.hyps(1)[OF k rr] show ?thesis by simp
  qed
qed

text \<open>The \<open>while (!q.empty())\<close> loop.\<close>

function bfs_loop ::
  "int list list \<Rightarrow> nat \<Rightarrow> int list \<times> int list \<times> int list \<Rightarrow> error + (int list \<times> int list)" where
  "bfs_loop adj num_vertices (visited, parent, q) =
     (case q of
        [] \<Rightarrow> Inr (visited, parent)
      | u # q' \<Rightarrow>
          bind_r (bfs_scan adj num_vertices u 0 (visited, parent, q')) (\<lambda>st.
          bfs_loop adj num_vertices st))"
  by pat_completeness auto
termination
proof (relation "measure (\<lambda>(adj, num_vertices, visited, parent, q). unvisited visited + length q)")
  show "wf (measure (\<lambda>(adj, num_vertices, visited, parent, q). unvisited visited + length q))"
    by simp
next
  fix adj :: "int list list" and num_vertices visited parent q u q' st
  assume "q = u # q'" "bfs_scan adj num_vertices u 0 (visited, parent, q') = Inr st"
  then show "((adj, num_vertices, st), adj, num_vertices, visited, parent, q)
       \<in> measure (\<lambda>(adj, num_vertices, visited, parent, q). unvisited visited + length q)"
    using bfs_scan_measure[of adj num_vertices u 0 visited parent q' "fst st" "fst (snd st)" "snd (snd st)"]
    by (simp add: split_beta)
qed

declare bfs_loop.simps [simp del]

text \<open>
  The loop \<open>while (u != -1)\<close> that follows the parent links and collects the path, before
  \<open>reverse\<close>; \<open>None\<close> is a loop that never ends.
\<close>

partial_function (option) path_loop :: "int list \<Rightarrow> int \<Rightarrow> int list \<Rightarrow> (error + int list) option" where
  "path_loop parent u path =
     (if u \<noteq> - 1 then
        (case vec_at parent u of
           Inl e \<Rightarrow> Some (Inl e)
         | Inr p \<Rightarrow> path_loop parent p (path @ [u]))
      else Some (Inr path))"

text \<open>\<open>num_vertices\<close> is the size of the adjacency matrix.\<close>

definition bfs_shortest_path :: "graph \<Rightarrow> int \<Rightarrow> int \<Rightarrow> (error + int list) option" where
  "bfs_shortest_path g source target =
     (let num_vertices = length (get_adj_matrix g);
          visited = replicate num_vertices 0;
          parent = replicate num_vertices (- 1);
          q = [source]
      in case vec_set visited source 1 of
           Inl e \<Rightarrow> Some (Inl e)
         | Inr visited \<Rightarrow>
            (case bfs_loop (get_adj_matrix g) num_vertices (visited, parent, q) of
               Inl e \<Rightarrow> Some (Inl e)
             | Inr (visited, parent) \<Rightarrow>
                (case vec_at visited target of
                   Inl e \<Rightarrow> Some (Inl e)
                 | Inr vt \<Rightarrow>
                    if vt \<noteq> 0 then
                      (case path_loop parent target [] of
                         None \<Rightarrow> None
                       | Some (Inl e) \<Rightarrow> Some (Inl e)
                       | Some (Inr path) \<Rightarrow> Some (Inr (rev path)))
                    else Some (Inr []))))"

subsection \<open>\<open>dfs_shortest_path\<close>\<close>

text \<open>
  The same with a stack (a list with its top at the head); the \<open>for\<close> loop ends early, by
  \<open>break\<close>, when it has pushed \<open>target\<close>.
\<close>

function dfs_scan ::
  "int list list \<Rightarrow> nat \<Rightarrow> int \<Rightarrow> int \<Rightarrow> nat \<Rightarrow> int list \<times> int list \<times> int list
   \<Rightarrow> error + (int list \<times> int list \<times> int list)" where
  "dfs_scan adj num_vertices target u v (visited, parent, s) =
     (if v < num_vertices then
        bind_r (mat_at adj u (int v)) (\<lambda>a.
        bind_r (if a \<noteq> 0 then bind_r (vec_at visited (int v)) (\<lambda>x. Inr (x = 0)) else Inr False) (\<lambda>c.
        if c then
          bind_r (vec_set visited (int v) 1) (\<lambda>visited'.
          bind_r (vec_set parent (int v) u) (\<lambda>parent'.
          if int v = target then Inr (visited', parent', int v # s)
          else dfs_scan adj num_vertices target u (Suc v) (visited', parent', int v # s)))
        else dfs_scan adj num_vertices target u (Suc v) (visited, parent, s)))
      else Inr (visited, parent, s))"
  by pat_completeness auto
termination
  by (relation "measure (\<lambda>(adj, num_vertices, target, u, v, st). num_vertices - v)") auto

declare dfs_scan.simps [simp del]

lemma dfs_scan_measure:
  "dfs_scan adj n t u v (visited, parent, s) = Inr (visited', parent', s') \<Longrightarrow>
   unvisited visited' + length s' = unvisited visited + length s"
proof (induction "n - v" arbitrary: v visited parent s)
  case 0
  then show ?case by (simp add: dfs_scan.simps)
next
  case (Suc k)
  then have v: "v < n" and k: "k = n - Suc v" by simp_all
  from Suc.prems v obtain a c where a: "mat_at adj u (int v) = Inr a"
    and c: "(if a \<noteq> 0 then bind_r (vec_at visited (int v)) (\<lambda>x. Inr (x = 0)) else Inr False) = Inr c"
    and r: "(if c then
          bind_r (vec_set visited (int v) 1) (\<lambda>visited'.
          bind_r (vec_set parent (int v) u) (\<lambda>parent'.
          if int v = t then Inr (visited', parent', int v # s)
          else dfs_scan adj n t u (Suc v) (visited', parent', int v # s)))
        else dfs_scan adj n t u (Suc v) (visited, parent, s)) = Inr (visited', parent', s')"
    by (subst (asm) dfs_scan.simps) (auto simp: bind_r_eq_Inr)
  show ?case
  proof (cases c)
    case False
    with r Suc.hyps(1)[OF k] show ?thesis by simp
  next
    case True
    with c have z: "vec_at visited (int v) = Inr 0"
      by (auto simp: bind_r_eq_Inr split: if_splits)
    from True r obtain vis1 par1 where
      w: "vec_set visited (int v) 1 = Inr vis1" "vec_set parent (int v) u = Inr par1"
      and rr: "(if int v = t then Inr (vis1, par1, int v # s)
          else dfs_scan adj n t u (Suc v) (vis1, par1, int v # s)) = Inr (visited', parent', s')"
      by (auto simp: bind_r_eq_Inr)
    from vec_at_Inr[OF z] vec_set_Inr_eq[OF w(1)]
    have m: "Suc (unvisited vis1) = unvisited visited"
      by (auto intro: unvisited_mark)
    show ?thesis
    proof (cases "int v = t")
      case True
      with rr m show ?thesis by auto
    next
      case False
      with rr Suc.hyps(1)[OF k] m show ?thesis by simp
    qed
  qed
qed

function dfs_loop ::
  "int list list \<Rightarrow> nat \<Rightarrow> int \<Rightarrow> int list \<times> int list \<times> int list \<Rightarrow> error + (int list \<times> int list)" where
  "dfs_loop adj num_vertices target (visited, parent, s) =
     (case s of
        [] \<Rightarrow> Inr (visited, parent)
      | u # s' \<Rightarrow>
          bind_r (dfs_scan adj num_vertices target u 0 (visited, parent, s')) (\<lambda>st.
          dfs_loop adj num_vertices target st))"
  by pat_completeness auto
termination
proof (relation "measure (\<lambda>(adj, num_vertices, target, visited, parent, s). unvisited visited + length s)")
  show "wf (measure (\<lambda>(adj, num_vertices, target, visited, parent, s). unvisited visited + length s))"
    by simp
next
  fix adj :: "int list list" and num_vertices target visited parent s u s' st
  assume "s = u # s'" "dfs_scan adj num_vertices target u 0 (visited, parent, s') = Inr st"
  then show "((adj, num_vertices, target, st), adj, num_vertices, target, visited, parent, s)
       \<in> measure (\<lambda>(adj, num_vertices, target, visited, parent, s). unvisited visited + length s)"
    using dfs_scan_measure[of adj num_vertices target u 0 visited parent s' "fst st" "fst (snd st)" "snd (snd st)"]
    by (simp add: split_beta)
qed

declare dfs_loop.simps [simp del]

definition dfs_shortest_path :: "graph \<Rightarrow> int \<Rightarrow> int \<Rightarrow> (error + int list) option" where
  "dfs_shortest_path g source target =
     (let num_vertices = length (get_adj_matrix g);
          visited = replicate num_vertices 0;
          parent = replicate num_vertices (- 1);
          s = [source]
      in case vec_set visited source 1 of
           Inl e \<Rightarrow> Some (Inl e)
         | Inr visited \<Rightarrow>
            (case dfs_loop (get_adj_matrix g) num_vertices target (visited, parent, s) of
               Inl e \<Rightarrow> Some (Inl e)
             | Inr (visited, parent) \<Rightarrow>
                (case vec_at visited target of
                   Inl e \<Rightarrow> Some (Inl e)
                 | Inr vt \<Rightarrow>
                    if vt \<noteq> 0 then
                      (case path_loop parent target [] of
                         None \<Rightarrow> None
                       | Some (Inl e) \<Rightarrow> Some (Inl e)
                       | Some (Inr path) \<Rightarrow> Some (Inr (rev path)))
                    else Some (Inr []))))"

text \<open>
  The graph of the scenario of the specification (4 vertices, undirected edges \<open>(0,1,5)\<close>,
  \<open>(1,2,3)\<close>, \<open>(0,2,1)\<close>, \<open>(2,3,4)\<close>), and a graph on 5 vertices with the undirected edges
  \<open>(0,1)\<close>, \<open>(0,2)\<close>, \<open>(2,3)\<close>, \<open>(3,4)\<close>, \<open>(1,4)\<close> of weight 1.
\<close>

definition spec4 :: graph where
  "spec4 = \<lparr> m_vertices = 4, m_directed = False,
             m_adj_matrix = [[0, 5, 1, 0], [5, 0, 3, 0], [1, 3, 0, 4], [0, 0, 4, 0]],
             m_adj_list = [[(1, 5), (2, 1)], [(2, 3)], [(3, 4)], []],
             m_edges = [(0, 1), (1, 2), (0, 2), (2, 3)], m_inc_matrix = [] \<rparr>"

definition detour5 :: graph where
  "detour5 = \<lparr> m_vertices = 5, m_directed = False,
             m_adj_matrix = [[0, 1, 1, 0, 0], [1, 0, 0, 0, 1], [1, 0, 0, 1, 0], [0, 0, 1, 0, 1], [0, 1, 0, 1, 0]],
             m_adj_list = [[(1, 1), (2, 1)], [(4, 1)], [(3, 1)], [(4, 1)], []],
             m_edges = [(0, 1), (0, 2), (2, 3), (3, 4), (1, 4)], m_inc_matrix = [] \<rparr>"

subsection \<open>Paths, and the invariants of the two searches\<close>

text \<open>
  \<open>connected adj x y\<close>: \<open>adj[x][y]\<close> is inside the matrix and not 0.  A walk is a sequence of
  vertices whose consecutive pairs are connected; \<open>is_path adj source target p\<close> is a nonempty
  walk \<open>p\<close> from \<open>source\<close> to \<open>target\<close>, and \<open>target\<close> is reachable from \<open>source\<close> when there
  is one.
\<close>

definition connected :: "int list list \<Rightarrow> int \<Rightarrow> int \<Rightarrow> bool" where
  "connected adj x y = (case mat_at adj x y of Inl e \<Rightarrow> False | Inr a \<Rightarrow> a \<noteq> 0)"

fun walk :: "int list list \<Rightarrow> int list \<Rightarrow> bool" where
  "walk adj [] = True"
| "walk adj [x] = True"
| "walk adj (x # y # p) = (connected adj x y \<and> walk adj (y # p))"

definition is_path :: "int list list \<Rightarrow> int \<Rightarrow> int \<Rightarrow> int list \<Rightarrow> bool" where
  "is_path adj source target p \<longleftrightarrow> p \<noteq> [] \<and> hd p = source \<and> last p = target \<and> walk adj p"

text \<open>Vertex indices of a graph on \<open>n\<close> vertices, and \<open>n \<times> n\<close> matrices.\<close>

definition in_range :: "nat \<Rightarrow> int \<Rightarrow> bool" where
  "in_range n x \<longleftrightarrow> 0 \<le> x \<and> x < int n"

definition square :: "nat \<Rightarrow> int list list \<Rightarrow> bool" where
  "square n adj \<longleftrightarrow> length adj = n \<and> (\<forall>row \<in> set adj. length row = n)"

text \<open>
  The parent links form a tree rooted at the source \<open>s\<close>: each marked vertex other than \<open>s\<close>
  has a marked parent it is connected from, one level above it; \<open>d\<close> is the level, a quantity of
  the proof that the program does not store.
\<close>

definition tree_inv ::
  "int list list \<Rightarrow> nat \<Rightarrow> int \<Rightarrow> (int \<Rightarrow> nat) \<Rightarrow> int list \<Rightarrow> int list \<Rightarrow> bool" where
  "tree_inv adj n s d vis par \<longleftrightarrow>
     length vis = n \<and> length par = n \<and> in_range n s \<and> vis ! nat s \<noteq> 0 \<and> par ! nat s = - 1 \<and> d s = 0 \<and>
     (\<forall>v. in_range n v \<and> vis ! nat v \<noteq> 0 \<and> v \<noteq> s \<longrightarrow>
        (\<exists>p. in_range n p \<and> par ! nat v = p \<and> vis ! nat p \<noteq> 0 \<and> connected adj p v \<and> d v = Suc (d p)))"

text \<open>
  A vertex is closed when all its neighbours are marked, and level-closed when moreover none
  of them lies more than one level below it.
\<close>

definition closed :: "int list list \<Rightarrow> nat \<Rightarrow> int list \<Rightarrow> int \<Rightarrow> bool" where
  "closed adj n vis w \<longleftrightarrow> (\<forall>x. in_range n x \<and> connected adj w x \<longrightarrow> vis ! nat x \<noteq> 0)"

definition level_closed :: "int list list \<Rightarrow> nat \<Rightarrow> (int \<Rightarrow> nat) \<Rightarrow> int list \<Rightarrow> int \<Rightarrow> bool" where
  "level_closed adj n d vis w \<longleftrightarrow>
     (\<forall>x. in_range n x \<and> connected adj w x \<longrightarrow> vis ! nat x \<noteq> 0 \<and> d x \<le> d w + 1)"

text \<open>
  The invariant of the \<open>for\<close> loop of \<open>bfs_shortest_path\<close> at index \<open>j\<close> for the popped
  vertex \<open>u\<close>, and of its \<open>while\<close> loop: the queue holds marked vertices in the order of their
  levels, which span at most two consecutive levels, and every marked vertex that has left the
  queue is level-closed.
\<close>

definition bfs_scan_inv ::
  "int list list \<Rightarrow> nat \<Rightarrow> int \<Rightarrow> (int \<Rightarrow> nat) \<Rightarrow> int \<Rightarrow> nat \<Rightarrow> int list \<times> int list \<times> int list \<Rightarrow> bool" where
  "bfs_scan_inv adj n s d u j st \<longleftrightarrow>
     (case st of (vis, par, q) \<Rightarrow>
       tree_inv adj n s d vis par \<and> in_range n u \<and> vis ! nat u \<noteq> 0 \<and>
       (\<forall>x \<in> set q. in_range n x \<and> vis ! nat x \<noteq> 0 \<and> d u \<le> d x \<and> d x \<le> d u + 1) \<and>
       sorted (map d q) \<and>
       (\<forall>w. in_range n w \<and> vis ! nat w \<noteq> 0 \<longrightarrow> d w \<le> d u + 1) \<and>
       (\<forall>w. in_range n w \<and> vis ! nat w \<noteq> 0 \<and> w \<notin> set q \<and> w \<noteq> u \<longrightarrow> level_closed adj n d vis w) \<and>
       (\<forall>x. 0 \<le> x \<and> x < int j \<and> connected adj u x \<longrightarrow> vis ! nat x \<noteq> 0))"

definition bfs_inv ::
  "int list list \<Rightarrow> nat \<Rightarrow> int \<Rightarrow> (int \<Rightarrow> nat) \<Rightarrow> int list \<times> int list \<times> int list \<Rightarrow> bool" where
  "bfs_inv adj n s d st \<longleftrightarrow>
     (case st of (vis, par, q) \<Rightarrow>
       tree_inv adj n s d vis par \<and>
       (\<forall>x \<in> set q. in_range n x \<and> vis ! nat x \<noteq> 0) \<and>
       sorted (map d q) \<and>
       (\<forall>w. in_range n w \<and> vis ! nat w \<noteq> 0 \<longrightarrow> (\<forall>x \<in> set q. d w \<le> d x + 1)) \<and>
       (\<forall>w. in_range n w \<and> vis ! nat w \<noteq> 0 \<and> w \<notin> set q \<longrightarrow> level_closed adj n d vis w))"

text \<open>
  The invariants of \<open>dfs_shortest_path\<close>: the stack holds marked vertices and, as long as
  \<open>target\<close> is not marked, every marked vertex that has left the stack is closed.
\<close>

definition dfs_scan_inv ::
  "int list list \<Rightarrow> nat \<Rightarrow> int \<Rightarrow> int \<Rightarrow> (int \<Rightarrow> nat) \<Rightarrow> int \<Rightarrow> nat
   \<Rightarrow> int list \<times> int list \<times> int list \<Rightarrow> bool" where
  "dfs_scan_inv adj n s t d u j st \<longleftrightarrow>
     (case st of (vis, par, stk) \<Rightarrow>
       tree_inv adj n s d vis par \<and> in_range n u \<and> vis ! nat u \<noteq> 0 \<and>
       (\<forall>x \<in> set stk. in_range n x \<and> vis ! nat x \<noteq> 0) \<and>
       (vis ! nat t \<noteq> 0 \<or>
        ((\<forall>w. in_range n w \<and> vis ! nat w \<noteq> 0 \<and> w \<notin> set stk \<and> w \<noteq> u \<longrightarrow> closed adj n vis w) \<and>
         (\<forall>x. 0 \<le> x \<and> x < int j \<and> connected adj u x \<longrightarrow> vis ! nat x \<noteq> 0))))"

definition dfs_inv ::
  "int list list \<Rightarrow> nat \<Rightarrow> int \<Rightarrow> int \<Rightarrow> (int \<Rightarrow> nat) \<Rightarrow> int list \<times> int list \<times> int list \<Rightarrow> bool" where
  "dfs_inv adj n s t d st \<longleftrightarrow>
     (case st of (vis, par, stk) \<Rightarrow>
       tree_inv adj n s d vis par \<and>
       (\<forall>x \<in> set stk. in_range n x \<and> vis ! nat x \<noteq> 0) \<and>
       (vis ! nat t \<noteq> 0 \<or>
        (\<forall>w. in_range n w \<and> vis ! nat w \<noteq> 0 \<and> w \<notin> set stk \<longrightarrow> closed adj n vis w)))"

section \<open>Vector and matrix accesses\<close>

lemma vec_at_ok: "0 \<le> i \<Longrightarrow> i < int (length xs) \<Longrightarrow> vec_at xs i = Inr (xs ! nat i)"
  by (simp add: vec_at_def)

lemma vec_set_ok: "0 \<le> i \<Longrightarrow> i < int (length xs) \<Longrightarrow> vec_set xs i x = Inr (xs[nat i := x])"
  by (simp add: vec_set_def)

lemma vec_at_bad: "i < 0 \<or> int (length xs) \<le> i \<Longrightarrow> vec_at xs i = Inl UndefinedBehaviour"
  by (auto simp add: vec_at_def)

lemma mat_at_ok:
  "0 \<le> i \<Longrightarrow> i < int (length m) \<Longrightarrow> 0 \<le> j \<Longrightarrow> j < int (length (m ! nat i)) \<Longrightarrow>
   mat_at m i j = Inr (m ! nat i ! nat j)"
  by (simp add: mat_at_def vec_at_ok)

lemma mat_set_ok:
  "0 \<le> i \<Longrightarrow> i < int (length m) \<Longrightarrow> 0 \<le> j \<Longrightarrow> j < int (length (m ! nat i)) \<Longrightarrow>
   mat_set m i j x = Inr (mat_upd m (nat i) (nat j) x)"
  by (simp add: mat_set_def vec_at_ok vec_set_ok mat_upd_def)

lemma length_mat_upd [simp]: "length (mat_upd m i j x) = length m"
  by (simp add: mat_upd_def)

lemma length_mat_upd_row [simp]: "length (mat_upd m i j x ! k) = length (m ! k)"
  by (cases "i < length m") (simp_all add: mat_upd_def nth_list_update list_update_beyond)

lemma mat_upd_nth:
  "i < length m \<Longrightarrow> j < length (m ! i) \<Longrightarrow>
   mat_upd m i j x ! k ! l = (if k = i \<and> l = j then x else m ! k ! l)"
  by (cases "k = i"; cases "l = j") (simp_all add: mat_upd_def)

lemma set_mat_upd_rows:
  "\<forall>row \<in> set m. length row = n \<Longrightarrow> \<forall>row \<in> set (mat_upd m i j x). length row = n"
  unfolding mat_upd_def
  by (metis in_set_conv_nth length_list_update nth_list_update_eq nth_list_update_neq nth_mem)

lemma add_edge_ok:
  assumes "graph_ok g" "0 \<le> u" "u < m_vertices g" "0 \<le> v" "v < m_vertices g"
  shows "add_edge g u v w =
           Inr (g\<lparr> m_adj_matrix :=
                     (if m_directed g then mat_upd (m_adj_matrix g) (nat u) (nat v) w
                      else mat_upd (mat_upd (m_adj_matrix g) (nat v) (nat u) w) (nat u) (nat v) w),
                   m_adj_list := (m_adj_list g)[nat u := m_adj_list g ! nat u @ [(v, w)]],
                   m_edges := m_edges g @ [(u, v)] \<rparr>)"
proof -
  let ?n = "nat (m_vertices g)"
  have len: "length (m_adj_matrix g) = ?n" "length (m_adj_list g) = ?n"
    and rows: "\<And>k. k < ?n \<Longrightarrow> length (m_adj_matrix g ! k) = ?n"
    using assms(1) by (auto simp: graph_ok_def)
  have un: "nat u < ?n" and vn: "nat v < ?n" using assms by auto
  have s1: "mat_set (m_adj_matrix g) u v w = Inr (mat_upd (m_adj_matrix g) (nat u) (nat v) w)"
    using assms len rows[OF un] by (intro mat_set_ok) auto
  have s2: "mat_set (mat_upd (m_adj_matrix g) (nat u) (nat v) w) u v w
              = Inr (mat_upd (m_adj_matrix g) (nat u) (nat v) w)"
    using assms len rows[OF un] by (subst mat_set_ok) (auto simp: mat_upd_def)
  have s3: "mat_set (mat_upd (m_adj_matrix g) (nat u) (nat v) w) v u w
              = Inr (mat_upd (mat_upd (m_adj_matrix g) (nat u) (nat v) w) (nat v) (nat u) w)"
    using assms len rows[OF vn] by (intro mat_set_ok) auto
  have s4: "mat_set (mat_upd (mat_upd (m_adj_matrix g) (nat u) (nat v) w) (nat v) (nat u) w) u v w
              = Inr (mat_upd (mat_upd (mat_upd (m_adj_matrix g) (nat u) (nat v) w) (nat v) (nat u) w) (nat u) (nat v) w)"
    using assms len rows[OF un] by (intro mat_set_ok) auto
  have e: "mat_upd (mat_upd (mat_upd (m_adj_matrix g) (nat u) (nat v) w) (nat v) (nat u) w) (nat u) (nat v) w
         = mat_upd (mat_upd (m_adj_matrix g) (nat v) (nat u) w) (nat u) (nat v) w"
    using un vn len rows
    by (intro nth_equalityI) (auto simp: mat_upd_nth)
  show ?thesis
    using assms len
    by (simp add: add_edge_def s1 s2 s3 s4 e vec_at_ok vec_set_ok Let_def)
qed

section \<open>The graphs of the class\<close>

lemma Graph_ok: "Graph n d = Inr g \<Longrightarrow> graph_ok g"
  by (auto simp: Graph_def graph_ok_def split: if_splits)

lemma add_edge_graph_ok:
  assumes "graph_ok g" "0 \<le> u" "u < m_vertices g" "0 \<le> v" "v < m_vertices g"
    and "add_edge g u v w = Inr g'"
  shows "graph_ok g'"
proof -
  have rows: "\<forall>row \<in> set (m_adj_matrix g). length row = nat (m_vertices g)"
    using assms(1) by (simp add: graph_ok_def)
  have g': "g' = g\<lparr> m_adj_matrix :=
                     (if m_directed g then mat_upd (m_adj_matrix g) (nat u) (nat v) w
                      else mat_upd (mat_upd (m_adj_matrix g) (nat v) (nat u) w) (nat u) (nat v) w),
                   m_adj_list := (m_adj_list g)[nat u := m_adj_list g ! nat u @ [(v, w)]],
                   m_edges := m_edges g @ [(u, v)] \<rparr>"
    using assms(6) unfolding add_edge_ok[OF assms(1-5)] by simp
  have r': "\<forall>row \<in> set (m_adj_matrix g'). length row = nat (m_vertices g')"
    using set_mat_upd_rows[OF rows] set_mat_upd_rows[OF set_mat_upd_rows[OF rows]]
    by (simp add: g')
  have e': "\<forall>e \<in> set (m_edges g'). 0 \<le> fst e \<and> fst e < m_vertices g' \<and> 0 \<le> snd e \<and> snd e < m_vertices g'"
    using assms(1-5) by (simp add: g' graph_ok_def)
  have l': "0 \<le> m_vertices g'" "length (m_adj_matrix g') = nat (m_vertices g')"
    "length (m_adj_list g') = nat (m_vertices g')"
    using assms(1) by (simp_all add: g' graph_ok_def)
  show ?thesis
    unfolding graph_ok_def using r' e' l' by blast
qed

lemma graph_ok_len: "graph_ok g \<Longrightarrow> length (m_adj_matrix g) = nat (m_vertices g)"
  by (simp add: graph_ok_def)

lemma graph_ok_row:
  "graph_ok g \<Longrightarrow> k < nat (m_vertices g) \<Longrightarrow> length (m_adj_matrix g ! k) = nat (m_vertices g)"
  unfolding graph_ok_def by (metis nth_mem)

lemma mat_set_Inr:
  "mat_set m i j x = Inr m' \<Longrightarrow> 0 \<le> i \<and> i < int (length m) \<and> 0 \<le> j \<and> j < int (length (m ! nat i))"
  unfolding mat_set_def bind_r_eq_Inr
  by (auto dest!: vec_at_Inr vec_set_Inr)

lemma add_edge_Inr_valid:
  assumes "graph_ok g" "add_edge g u v w = Inr g'"
  shows "0 \<le> u \<and> u < m_vertices g \<and> 0 \<le> v \<and> v < m_vertices g"
proof -
  from assms(2) obtain am where "mat_set (m_adj_matrix g) u v w = Inr am"
    unfolding add_edge_def bind_r_eq_Inr by blast
  from mat_set_Inr[OF this] have b: "0 \<le> u" "u < int (length (m_adj_matrix g))"
    "0 \<le> v" "v < int (length (m_adj_matrix g ! nat u))" by auto
  have "nat u < length (m_adj_matrix g)" using b by auto
  then have "length (m_adj_matrix g ! nat u) = nat (m_vertices g)"
    using assms(1) unfolding graph_ok_def by (metis nth_mem)
  with b assms(1) show ?thesis by (auto simp: graph_ok_def)
qed

lemma add_edge_keeps:
  assumes "graph_ok g" "add_edge g u v w = Inr g'"
  shows "graph_ok g' \<and> m_inc_matrix g' = m_inc_matrix g \<and> m_vertices g' = m_vertices g
         \<and> m_directed g' = m_directed g"
proof -
  note b = add_edge_Inr_valid[OF assms]
  have ok: "graph_ok g'" using add_edge_graph_ok[OF assms(1) _ _ _ _ assms(2)] b by blast
  have "m_inc_matrix g' = m_inc_matrix g \<and> m_vertices g' = m_vertices g \<and> m_directed g' = m_directed g"
    using assms(2) b unfolding add_edge_ok[OF assms(1) b[THEN conjunct1] b[THEN conjunct2, THEN conjunct1]
        b[THEN conjunct2, THEN conjunct2, THEN conjunct1] b[THEN conjunct2, THEN conjunct2, THEN conjunct2]]
    by auto
  with ok show ?thesis by simp
qed

section \<open>\<open>add_edge\<close>\<close>

text \<open>
  C5, as stated, at a self-loop of a directed graph: the claim says that in a directed graph
  \<open>adjacencyMatrix[v][u]\<close> is unchanged by \<open>add_edge(u, v, w)\<close>.  For \<open>u = v = 0\<close> in
  \<open>Graph(1, true)\<close> that entry is the one the call writes: it is 0 before and 5 after
  \<open>add_edge(0, 0, 5)\<close>.
\<close>

theorem add_edge_directed_self_loop_counterexample:
  "Graph 1 True = Inr graph1d \<and> m_directed graph1d \<and>
   add_edge graph1d 0 0 5
     = Inr (graph1d\<lparr> m_adj_matrix := [[5]], m_adj_list := [[(0, 5)]], m_edges := [(0, 0)] \<rparr>) \<and>
   mat_at [[5]] 0 0 = Inr 5 \<and> mat_at (m_adj_matrix graph1d) 0 0 = Inr 0"
  by (simp add: Graph_def graph1d_def add_edge_def mat_set_def mat_at_def vec_at_def vec_set_def)

lemma mat_upd_same: "i < length m \<Longrightarrow> j < length (m ! i) \<Longrightarrow> mat_upd m i j x ! i ! j = x"
  by (simp add: mat_upd_def)

lemma mat_upd_other: "\<not> (k = i \<and> l = j) \<Longrightarrow> mat_upd m i j x ! k ! l = m ! k ! l"
proof (cases "k = i")
  case False
  then show ?thesis by (simp add: mat_upd_def)
next
  case True
  assume "\<not> (k = i \<and> l = j)"
  with True have lj: "l \<noteq> j" by simp
  show ?thesis
  proof (cases "i < length m")
    case True
    with \<open>k = i\<close> lj show ?thesis by (simp add: mat_upd_def)
  next
    case False
    then show ?thesis by (simp add: mat_upd_def list_update_beyond)
  qed
qed

lemma add_edge_cells:
  assumes ok: "graph_ok g" and uv: "0 \<le> u" "u < m_vertices g" "0 \<le> v" "v < m_vertices g"
    and r: "add_edge g u v w = Inr g'"
  shows "m_adj_matrix g' ! nat u ! nat v = w"
    and "\<not> m_directed g \<Longrightarrow> m_adj_matrix g' ! nat v ! nat u = w"
    and "\<not> (i = nat u \<and> j = nat v) \<Longrightarrow> \<not> (\<not> m_directed g \<and> i = nat v \<and> j = nat u) \<Longrightarrow>
         m_adj_matrix g' ! i ! j = m_adj_matrix g ! i ! j"
proof -
  let ?A = "m_adj_matrix g"
  let ?n = "nat (m_vertices g)"
  have un: "nat u < ?n" and vn: "nat v < ?n" using uv by auto
  have len: "length ?A = ?n" by (rule graph_ok_len[OF ok])
  have ru: "length (?A ! nat u) = ?n" and rv: "length (?A ! nat v) = ?n"
    using graph_ok_row[OF ok] un vn by simp_all
  have am: "m_adj_matrix g' = (if m_directed g then mat_upd ?A (nat u) (nat v) w
                      else mat_upd (mat_upd ?A (nat v) (nat u) w) (nat u) (nat v) w)"
    using r unfolding add_edge_ok[OF ok uv] by auto
  have b1: "nat u < length ?A" "nat v < length (?A ! nat u)" using un vn len ru by simp_all
  have b2: "nat u < length (mat_upd ?A (nat v) (nat u) w)"
    "nat v < length (mat_upd ?A (nat v) (nat u) w ! nat u)" using un vn len ru by simp_all
  have b3: "nat v < length ?A" "nat u < length (?A ! nat v)" using un vn len rv by simp_all
  show "m_adj_matrix g' ! nat u ! nat v = w"
    using mat_upd_same[OF b1] mat_upd_same[OF b2] by (simp add: am)
  show "m_adj_matrix g' ! nat v ! nat u = w" if nd: "\<not> m_directed g"
  proof (cases "nat v = nat u")
    case True
    then show ?thesis using mat_upd_same[OF b2, of w] nd by (simp add: am)
  next
    case False
    then have "\<not> (nat v = nat u \<and> nat u = nat v)" by simp
    from mat_upd_other[OF this, of "mat_upd ?A (nat v) (nat u) w" w]
    have "mat_upd (mat_upd ?A (nat v) (nat u) w) (nat u) (nat v) w ! nat v ! nat u
          = mat_upd ?A (nat v) (nat u) w ! nat v ! nat u" .
    also have "\<dots> = w" by (rule mat_upd_same[OF b3])
    finally show ?thesis using nd by (simp add: am)
  qed
  show "m_adj_matrix g' ! i ! j = m_adj_matrix g ! i ! j"
    if n1: "\<not> (i = nat u \<and> j = nat v)" and n2: "\<not> (\<not> m_directed g \<and> i = nat v \<and> j = nat u)"
  proof (cases "m_directed g")
    case True
    then show ?thesis using mat_upd_other[OF n1, of ?A w] by (simp add: am)
  next
    case False
    with n2 have n3: "\<not> (i = nat v \<and> j = nat u)" by simp
    have "m_adj_matrix g' ! i ! j = mat_upd ?A (nat v) (nat u) w ! i ! j"
      using False mat_upd_other[OF n1, of "mat_upd ?A (nat v) (nat u) w" w] by (simp add: am)
    also have "\<dots> = ?A ! i ! j" by (rule mat_upd_other[OF n3])
    finally show ?thesis .
  qed
qed

lemma add_edge_symmetric:
  assumes ok: "graph_ok g" and uv: "0 \<le> u" "u < m_vertices g" "0 \<le> v" "v < m_vertices g"
    and r: "add_edge g u v w = Inr g'" and nd: "\<not> m_directed g" and sy: "symmetric g"
  shows "symmetric g'"
proof -
  note c = add_edge_cells[OF ok uv r]
  have nv: "m_vertices g' = m_vertices g" using add_edge_keeps[OF ok r] by simp
  have "m_adj_matrix g' ! i ! j = m_adj_matrix g' ! j ! i"
    if ij: "i < nat (m_vertices g)" "j < nat (m_vertices g)" for i j
  proof -
    consider "i = nat u \<and> j = nat v" | "i = nat v \<and> j = nat u"
      | "\<not> (i = nat u \<and> j = nat v) \<and> \<not> (i = nat v \<and> j = nat u)" by blast
    then show ?thesis
    proof cases
      case 1
      then show ?thesis using c(1) c(2)[OF nd] by simp
    next
      case 2
      then show ?thesis using c(1) c(2)[OF nd] by simp
    next
      case 3
      then have a: "\<not> (i = nat u \<and> j = nat v)" "\<not> (\<not> m_directed g \<and> i = nat v \<and> j = nat u)"
        and b: "\<not> (j = nat u \<and> i = nat v)" "\<not> (\<not> m_directed g \<and> j = nat v \<and> i = nat u)"
        by blast+
      have "m_adj_matrix g' ! i ! j = m_adj_matrix g ! i ! j" by (rule c(3)[OF a])
      moreover have "m_adj_matrix g' ! j ! i = m_adj_matrix g ! j ! i" by (rule c(3)[OF b])
      moreover have "m_adj_matrix g ! i ! j = m_adj_matrix g ! j ! i"
        using sy ij unfolding symmetric_def by blast
      ultimately show ?thesis by simp
    qed
  qed
  then show ?thesis unfolding symmetric_def nv by blast
qed

text \<open>
  C5, amended: for a graph of the class and \<open>0 \<le> u, v < vertexCount\<close>, \<open>add_edge(u, v, w)\<close>
  succeeds; afterwards \<open>adjacencyMatrix[u][v] = w\<close>, \<open>adjacencyList[u]\<close> has \<open>(v, w)\<close>
  appended and \<open>edges\<close> has \<open>(u, v)\<close> appended; if the graph is undirected,
  \<open>adjacencyMatrix[v][u] = w\<close> as well (the matrix stays symmetric); if the graph is directed
  and \<open>u \<noteq> v\<close>, \<open>adjacencyMatrix[v][u]\<close> is unchanged by the call.  The call changes nothing
  else: every other entry of the matrix, every other adjacency list, the vertex count, the
  directedness and the stored incidence matrix are as before.
\<close>

theorem add_edge_effects:
  assumes "graph_ok g" "0 \<le> u" "u < m_vertices g" "0 \<le> v" "v < m_vertices g"
  shows "\<exists>g'. add_edge g u v w = Inr g' \<and>
           m_adj_matrix g' ! nat u ! nat v = w \<and>
           m_adj_list g' ! nat u = m_adj_list g ! nat u @ [(v, w)] \<and>
           m_edges g' = m_edges g @ [(u, v)] \<and>
           (\<not> m_directed g \<longrightarrow> m_adj_matrix g' ! nat v ! nat u = w) \<and>
           (m_directed g \<and> u \<noteq> v \<longrightarrow> m_adj_matrix g' ! nat v ! nat u = m_adj_matrix g ! nat v ! nat u) \<and>
           (\<forall>i j. \<not> (i = nat u \<and> j = nat v) \<and> \<not> (\<not> m_directed g \<and> i = nat v \<and> j = nat u)
              \<longrightarrow> m_adj_matrix g' ! i ! j = m_adj_matrix g ! i ! j) \<and>
           (\<not> m_directed g \<and> symmetric g \<longrightarrow> symmetric g') \<and>
           graph_ok g' \<and> m_vertices g' = m_vertices g \<and> m_directed g' = m_directed g \<and>
           m_inc_matrix g' = m_inc_matrix g \<and>
           m_adj_list g' = (m_adj_list g)[nat u := m_adj_list g ! nat u @ [(v, w)]]"
proof -
  let ?n = "nat (m_vertices g)"
  have len: "length (m_adj_list g) = ?n" using assms(1) by (simp add: graph_ok_def)
  have un: "nat u < ?n" and vn: "nat v < ?n" using assms by auto
  have ne: "u \<noteq> v \<Longrightarrow> nat u \<noteq> nat v" using assms by auto
  obtain g' where r: "add_edge g u v w = Inr g'" using add_edge_ok[OF assms] by simp
  note c = add_edge_cells[OF assms r]
  note k = add_edge_keeps[OF assms(1) r]
  have al: "m_adj_list g' = (m_adj_list g)[nat u := m_adj_list g ! nat u @ [(v, w)]]"
    and es: "m_edges g' = m_edges g @ [(u, v)]"
    using r unfolding add_edge_ok[OF assms] by auto
  have 2: "m_adj_list g' ! nat u = m_adj_list g ! nat u @ [(v, w)]"
    using un len by (simp add: al)
  have 5: "m_directed g \<and> u \<noteq> v \<longrightarrow> m_adj_matrix g' ! nat v ! nat u = m_adj_matrix g ! nat v ! nat u"
  proof
    assume a: "m_directed g \<and> u \<noteq> v"
    then have "\<not> (nat v = nat u \<and> nat u = nat v)" "\<not> (\<not> m_directed g \<and> nat v = nat v \<and> nat u = nat u)"
      using ne by auto
    from c(3)[OF this] show "m_adj_matrix g' ! nat v ! nat u = m_adj_matrix g ! nat v ! nat u" .
  qed
  have 6: "\<forall>i j. \<not> (i = nat u \<and> j = nat v) \<and> \<not> (\<not> m_directed g \<and> i = nat v \<and> j = nat u)
              \<longrightarrow> m_adj_matrix g' ! i ! j = m_adj_matrix g ! i ! j"
    using c(3) by blast
  have 7: "\<not> m_directed g \<and> symmetric g \<longrightarrow> symmetric g'"
    using add_edge_symmetric[OF assms r] by blast
  from r c(1) 2 es c(2) 5 6 7 k al show ?thesis by blast
qed

text \<open>The amended C5 at \<open>add_edge(0, 1, 7)\<close> on \<open>Graph(2, false)\<close> and on \<open>Graph(2, true)\<close>.\<close>

theorem add_edge_effects_witness:
  "graph_ok graph2u \<and> \<not> m_directed graph2u \<and> symmetric graph2u \<and>
   graph_ok graph2d \<and> m_directed graph2d \<and>
   (\<exists>g'. add_edge graph2u 0 1 7 = Inr g' \<and> m_adj_matrix g' = [[0, 7], [7, 0]] \<and>
      m_adj_list g' = [[(1, 7)], []] \<and> m_edges g' = [(0, 1)] \<and> symmetric g' \<and> graph_ok g') \<and>
   (\<exists>g'. add_edge graph2d 0 1 7 = Inr g' \<and> m_adj_matrix g' = [[0, 7], [0, 0]] \<and>
      m_adj_list g' = [[(1, 7)], []] \<and> m_edges g' = [(0, 1)] \<and> graph_ok g')"
proof -
  have oku: "graph_ok graph2u" and okd: "graph_ok graph2d"
    by (simp_all add: graph_ok_def graph2u_def graph2d_def)
  have bu: "(0::int) \<le> 0" "(0::int) < m_vertices graph2u" "(0::int) \<le> 1" "(1::int) < m_vertices graph2u"
    and bd: "(0::int) \<le> 0" "(0::int) < m_vertices graph2d" "(0::int) \<le> 1" "(1::int) < m_vertices graph2d"
    by (simp_all add: graph2u_def graph2d_def)
  have du: "\<not> m_directed graph2u" and dd: "m_directed graph2d"
    by (simp_all add: graph2u_def graph2d_def)
  have su: "symmetric graph2u"
    by (auto simp: symmetric_def graph2u_def numeral_2_eq_2 less_Suc_eq)
  have eu: "add_edge graph2u 0 1 7
            = Inr (graph2u\<lparr> m_adj_matrix := [[0, 7], [7, 0]], m_adj_list := [[(1, 7)], []],
                             m_edges := [(0, 1)] \<rparr>)"
    and ed: "add_edge graph2d 0 1 7
            = Inr (graph2d\<lparr> m_adj_matrix := [[0, 7], [0, 0]], m_adj_list := [[(1, 7)], []],
                             m_edges := [(0, 1)] \<rparr>)"
    by (simp_all add: graph2u_def graph2d_def add_edge_def mat_set_def vec_at_def vec_set_def)
  from add_edge_effects[OF oku bu, of 7] du su obtain gu where
    u: "add_edge graph2u 0 1 7 = Inr gu" "symmetric gu" "graph_ok gu" by blast
  from add_edge_effects[OF okd bd, of 7] obtain gd where
    d: "add_edge graph2d 0 1 7 = Inr gd" "graph_ok gd" by blast
  have "m_adj_matrix gu = [[0, 7], [7, 0]] \<and> m_adj_list gu = [[(1, 7)], []] \<and> m_edges gu = [(0, 1)]"
    using u(1) eu by auto
  moreover have "m_adj_matrix gd = [[0, 7], [0, 0]] \<and> m_adj_list gd = [[(1, 7)], []] \<and> m_edges gd = [(0, 1)]"
    using d(1) ed by auto
  ultimately show ?thesis using oku okd du dd su u d by blast
qed

text \<open>
  The adjacency matrix of an undirected graph of the class is symmetric: it is so after the
  constructor, and a sequence of calls keeps it so.
\<close>

lemma Graph_symmetric: "Graph n d = Inr g \<Longrightarrow> symmetric g"
  by (auto simp: Graph_def symmetric_def split: if_splits)

lemma get_inc_matrix_adj:
  assumes "get_inc_matrix g = Inr (m, g')"
  shows "
m_adj_matrix g' = m_adj_matrix g \<and> m_vertices g' = m_vertices g \<and>
         m_directed g' = m_directed g \<and> (graph_ok g \<longrightarrow> graph_ok g')"
proof (cases "m_inc_matrix g = []")
  case False
  then show ?thesis using assms by (auto simp: get_inc_matrix_def)
next
  case True
  with assms obtain inc where "g' = g\<lparr> m_inc_matrix := inc \<rparr>"
    by (auto simp: get_inc_matrix_def bind_r_eq_Inr split: if_splits)
  then show ?thesis by (simp add: graph_ok_def)
qed

lemma run_symmetric:
  "graph_ok g \<Longrightarrow> \<not> m_directed g \<Longrightarrow> symmetric g \<Longrightarrow> run g cs = Inr (ms, g') \<Longrightarrow> symmetric g'"
proof (induction cs arbitrary: g ms)
  case Nil
  then show ?case by simp
next
  case (Cons c cs)
  show ?case
  proof (cases c)
    case (AddEdge a b w)
    with Cons.prems(4) obtain h where a: "add_edge g a b w = Inr h" and r: "run h cs = Inr (ms, g')"
      by (auto simp: bind_r_eq_Inr)
    note v = add_edge_Inr_valid[OF Cons.prems(1) a]
    from v have vv: "0 \<le> a" "a < m_vertices g" "0 \<le> b" "b < m_vertices g" by simp_all
    note k = add_edge_keeps[OF Cons.prems(1) a]
    have "symmetric h" by (rule add_edge_symmetric[OF Cons.prems(1) vv a Cons.prems(2,3)])
    moreover have "graph_ok h" "\<not> m_directed h" using k Cons.prems(2) by simp_all
    ultimately show ?thesis using Cons.IH[OF _ _ _ r] by blast
  next
    case GetIncMatrix
    with Cons.prems(4) obtain m h ms1 where i: "get_inc_matrix g = Inr (m, h)"
      and r: "run h cs = Inr (ms1, g')"
      by (auto simp: bind_r_eq_Inr)
    from get_inc_matrix_adj[OF i] Cons.prems(1,2,3)
    have "graph_ok h" "\<not> m_directed h" "symmetric h" by (simp_all add: symmetric_def)
    then show ?thesis using Cons.IH[OF _ _ _ r] by blast
  qed
qed

section \<open>\<open>get_inc_matrix\<close>\<close>

text \<open>The loop from edge index \<open>i\<close> on fills the columns \<open>i, i + 1, \<dots>\<close> and leaves the others.\<close>

lemma c_int_abs:
  "INT_MIN < a \<Longrightarrow> a \<le> INT_MAX \<Longrightarrow> c_int \<bar>a\<bar> = Inr \<bar>a\<bar> \<and> c_int (- \<bar>a\<bar>) = Inr (- \<bar>a\<bar>)"
  unfolding c_int_def INT_MIN_def INT_MAX_def by (simp add: abs_if)

lemma inc_loop_entries:
  "graph_ok g \<Longrightarrow> length inc = nat (m_vertices g) \<Longrightarrow> \<forall>row \<in> set inc. length row = length (m_edges g) \<Longrightarrow>
    \<forall>e \<in> set (m_edges g). INT_MIN < m_adj_matrix g ! nat (fst e) ! nat (snd e) \<and>
                            m_adj_matrix g ! nat (fst e) ! nat (snd e) \<le> INT_MAX \<Longrightarrow>
    \<exists>inc'. inc_loop g i inc = Inr inc' \<and> length inc' = nat (m_vertices g) \<and>
      (\<forall>row \<in> set inc'. length row = length (m_edges g)) \<and>
      (\<forall>r < nat (m_vertices g). \<forall>c < length (m_edges g).
         inc' ! r ! c =
           (if i \<le> c then
              (if int r = snd (m_edges g ! c)
               then (if m_directed g then - \<bar>m_adj_matrix g ! nat (fst (m_edges g ! c)) ! nat (snd (m_edges g ! c))\<bar>
                     else \<bar>m_adj_matrix g ! nat (fst (m_edges g ! c)) ! nat (snd (m_edges g ! c))\<bar>)
               else if int r = fst (m_edges g ! c)
               then \<bar>m_adj_matrix g ! nat (fst (m_edges g ! c)) ! nat (snd (m_edges g ! c))\<bar>
               else inc ! r ! c)
            else inc ! r ! c))"
proof (induction "length (m_edges g) - i" arbitrary: i inc)
  case 0
  then show ?case by (subst inc_loop.simps) auto
next
  case (Suc k)
  let ?n = "nat (m_vertices g)"
  let ?m = "length (m_edges g)"
  note ok = Suc.prems(1)
  note p1 = Suc.prems(2)
  note p2 = Suc.prems(3)
  note p3 = Suc.prems(4)
  have True: "i < ?m" using Suc.hyps(2) by simp
  have k: "k = ?m - Suc i" using Suc.hyps(2) by simp
  show ?case
  proof -
    define u where "u = fst (m_edges g ! i)"
    define v where "v = snd (m_edges g ! i)"
    have mem: "m_edges g ! i \<in> set (m_edges g)" using True by simp
    have ub: "0 \<le> u" "u < m_vertices g" and vb: "0 \<le> v" "v < m_vertices g"
      using ok mem unfolding graph_ok_def u_def v_def by auto
    have un: "nat u < ?n" and vn: "nat v < ?n" using ub vb by auto
    have alen: "length (m_adj_matrix g) = ?n" and arow: "length (m_adj_matrix g ! nat u) = ?n"
      using ok un by (auto simp: graph_ok_def)
    define a where "a = m_adj_matrix g ! nat u ! nat v"
    have ra: "mat_at (m_adj_matrix g) u v = Inr a"
      unfolding a_def using ub vb alen arow by (intro mat_at_ok) auto
    have rlen: "\<And>k. k < ?n \<Longrightarrow> length (inc ! k) = ?m"
      using p1 p2 by (metis nth_mem)
    have "INT_MIN < a \<and> a \<le> INT_MAX"
      using p3 mem unfolding a_def u_def v_def by blast
    then have wa: "c_int \<bar>a\<bar> = Inr \<bar>a\<bar>" "c_int (- \<bar>a\<bar>) = Inr (- \<bar>a\<bar>)"
      using c_int_abs[of a] by simp_all
    define inc1 where "inc1 = mat_upd inc (nat u) i \<bar>a\<bar>"
    define inc2 where "inc2 = mat_upd inc1 (nat v) i (if m_directed g then - \<bar>a\<bar> else \<bar>a\<bar>)"
    have r1: "mat_set inc u (int i) \<bar>a\<bar> = Inr inc1"
      unfolding inc1_def using ub un True p1 rlen[OF un]
      by (subst mat_set_ok) auto
    have r2: "mat_set inc1 v (int i) (if m_directed g then - \<bar>a\<bar> else \<bar>a\<bar>) = Inr inc2"
      unfolding inc2_def using vb vn True p1 rlen[OF vn]
      by (subst mat_set_ok) (auto simp: inc1_def)
    have l2: "length inc2 = ?n" using p1 by (simp add: inc2_def inc1_def)
    have rows2: "\<forall>row \<in> set inc2. length row = ?m"
      unfolding inc2_def inc1_def by (intro set_mat_upd_rows p2)
    have unf: "inc_loop g i inc = inc_loop g (Suc i) inc2"
    proof (cases "m_directed g")
      case d: True
      with r2 have "mat_set inc1 v (int i) (- \<bar>a\<bar>) = Inr inc2" by simp
      with True ra r1 wa d show ?thesis
        by (subst inc_loop.simps) (simp add: Let_def u_def[symmetric] v_def[symmetric])
    next
      case d: False
      with r2 have "mat_set inc1 v (int i) \<bar>a\<bar> = Inr inc2" by simp
      with True ra r1 wa d show ?thesis
        by (subst inc_loop.simps) (simp add: Let_def u_def[symmetric] v_def[symmetric])
    qed
    have IH: "\<exists>inc'. inc_loop g (Suc i) inc2 = Inr inc' \<and> length inc' = ?n \<and>
      (\<forall>row \<in> set inc'. length row = ?m) \<and>
      (\<forall>r < ?n. \<forall>c < ?m.
         inc' ! r ! c =
           (if Suc i \<le> c then
              (if int r = snd (m_edges g ! c)
               then (if m_directed g then - \<bar>m_adj_matrix g ! nat (fst (m_edges g ! c)) ! nat (snd (m_edges g ! c))\<bar>
                     else \<bar>m_adj_matrix g ! nat (fst (m_edges g ! c)) ! nat (snd (m_edges g ! c))\<bar>)
               else if int r = fst (m_edges g ! c)
               then \<bar>m_adj_matrix g ! nat (fst (m_edges g ! c)) ! nat (snd (m_edges g ! c))\<bar>
               else inc2 ! r ! c)
            else inc2 ! r ! c))"
      using Suc.hyps(1)[OF k ok l2 rows2 p3] .
    then obtain inc' where res: "inc_loop g (Suc i) inc2 = Inr inc'" and l': "length inc' = ?n"
      and rows': "\<forall>row \<in> set inc'. length row = ?m"
      and ent: "\<And>r c. r < ?n \<Longrightarrow> c < ?m \<Longrightarrow> inc' ! r ! c =
           (if Suc i \<le> c then
              (if int r = snd (m_edges g ! c)
               then (if m_directed g then - \<bar>m_adj_matrix g ! nat (fst (m_edges g ! c)) ! nat (snd (m_edges g ! c))\<bar>
                     else \<bar>m_adj_matrix g ! nat (fst (m_edges g ! c)) ! nat (snd (m_edges g ! c))\<bar>)
               else if int r = fst (m_edges g ! c)
               then \<bar>m_adj_matrix g ! nat (fst (m_edges g ! c)) ! nat (snd (m_edges g ! c))\<bar>
               else inc2 ! r ! c)
            else inc2 ! r ! c)"
      by blast
    have e2: "\<And>r c. r < ?n \<Longrightarrow> c < ?m \<Longrightarrow> inc2 ! r ! c =
        (if c = i \<and> r = nat v then (if m_directed g then - \<bar>a\<bar> else \<bar>a\<bar>)
         else if c = i \<and> r = nat u then \<bar>a\<bar> else inc ! r ! c)"
      using un vn True p1 rlen
      by (simp add: inc2_def inc1_def mat_upd_nth)
    have conv: "\<And>r. (r = nat v) = (int r = v)" "\<And>r. (r = nat u) = (int r = u)"
      using ub vb by auto
    have "\<forall>r < ?n. \<forall>c < ?m. inc' ! r ! c =
           (if i \<le> c then
              (if int r = snd (m_edges g ! c)
               then (if m_directed g then - \<bar>m_adj_matrix g ! nat (fst (m_edges g ! c)) ! nat (snd (m_edges g ! c))\<bar>
                     else \<bar>m_adj_matrix g ! nat (fst (m_edges g ! c)) ! nat (snd (m_edges g ! c))\<bar>)
               else if int r = fst (m_edges g ! c)
               then \<bar>m_adj_matrix g ! nat (fst (m_edges g ! c)) ! nat (snd (m_edges g ! c))\<bar>
               else inc ! r ! c)
            else inc ! r ! c)"
    proof (intro allI impI)
      fix r c assume r: "r < ?n" and c: "c < ?m"
      consider "c < i" | "c = i" | "Suc i \<le> c" by linarith
      then show "inc' ! r ! c =
           (if i \<le> c then
              (if int r = snd (m_edges g ! c)
               then (if m_directed g then - \<bar>m_adj_matrix g ! nat (fst (m_edges g ! c)) ! nat (snd (m_edges g ! c))\<bar>
                     else \<bar>m_adj_matrix g ! nat (fst (m_edges g ! c)) ! nat (snd (m_edges g ! c))\<bar>)
               else if int r = fst (m_edges g ! c)
               then \<bar>m_adj_matrix g ! nat (fst (m_edges g ! c)) ! nat (snd (m_edges g ! c))\<bar>
               else inc ! r ! c)
            else inc ! r ! c)"
      proof cases
        case 1
        then show ?thesis using ent[OF r c] e2[OF r c] by simp
      next
        case 2
        then show ?thesis using ent[OF r c] e2[OF r c] conv
          by (simp add: u_def[symmetric] v_def[symmetric] a_def)
      next
        case 3
        then show ?thesis using ent[OF r c] e2[OF r c] by simp
      qed
    qed
    with unf res l' rows' show ?thesis by simp
  qed
qed


lemma graph1d_loop_built:
  "bind_r (Graph 1 True) (\<lambda>g. add_edge g 0 0 5) = Inr graph1d_loop"
  by (simp add: Graph_def graph1d_loop_def add_edge_def mat_set_def mat_at_def vec_at_def vec_set_def)

lemma scenario3_built:
  "bind_r (Graph 3 False) (\<lambda>g. bind_r (add_edge g 0 1 2) (\<lambda>g. add_edge g 1 2 3)) = Inr scenario3"
  by (simp add: Graph_def scenario3_def add_edge_def mat_set_def mat_at_def vec_at_def vec_set_def
      numeral_3_eq_3 numeral_2_eq_2)

text \<open>
  C3, as stated, at a self-loop of a directed graph: for the edge \<open>(u, v) = (0, 0)\<close> of index 0
  and \<open>w = 5\<close> the claim gives entry \<open>[u][0] = w = 5\<close>, but the second assignment of the loop
  body overwrites it: the entry is \<open>-5\<close>.  And at the weight \<open>INT_MIN\<close>, which \<open>add_edge\<close>
  accepts: \<open>abs\<close> overflows, and the call has no defined result.
\<close>

theorem get_inc_matrix_self_loop_counterexample:
  "get_inc_matrix graph1d_loop = Inr ([[- 5]], graph1d_loop\<lparr> m_inc_matrix := [[- 5]] \<rparr>) \<and>
   m_edges graph1d_loop ! 0 = (0, 0) \<and> \<bar>m_adj_matrix graph1d_loop ! 0 ! 0\<bar> = 5 \<and>
   bind_r (Graph 2 False) (\<lambda>g. add_edge g 0 1 INT_MIN) = Inr graph2u_min \<and>
   get_inc_matrix graph2u_min = Inl UndefinedBehaviour"
  by (simp add: get_inc_matrix_def graph1d_loop_def graph2u_min_def inc_loop.simps mat_set_def
      mat_at_def vec_at_def vec_set_def c_int_def INT_MIN_def INT_MAX_def Graph_def add_edge_def
      numeral_2_eq_2)

text \<open>The matrix that the first call of \<open>get_inc_matrix\<close> builds, entry by entry.\<close>

lemma inc_matrix_entries:
  assumes "graph_ok g" "m_inc_matrix g = []"
    and "\<forall>e \<in> set (m_edges g). INT_MIN < m_adj_matrix g ! nat (fst e) ! nat (snd e) \<and>
                            m_adj_matrix g ! nat (fst e) ! nat (snd e) \<le> INT_MAX"
  shows "\<exists>inc. get_inc_matrix g = Inr (inc, g\<lparr> m_inc_matrix := inc \<rparr>) \<and>
           length inc = nat (m_vertices g) \<and>
           (\<forall>row \<in> set inc. length row = length (m_edges g)) \<and>
           (\<forall>i < length (m_edges g). \<forall>u v w.
              m_edges g ! i = (u, v) \<and> w = \<bar>m_adj_matrix g ! nat u ! nat v\<bar> \<longrightarrow>
                (u \<noteq> v \<longrightarrow> inc ! nat u ! i = w) \<and>
                inc ! nat v ! i = (if m_directed g then - w else w) \<and>
                (\<forall>r < nat (m_vertices g). int r \<noteq> u \<and> int r \<noteq> v \<longrightarrow> inc ! r ! i = 0))"
proof -
  let ?n = "nat (m_vertices g)"
  let ?m = "length (m_edges g)"
  let ?z = "replicate ?n (replicate ?m (0::int))"
  have "length ?z = ?n" "\<forall>row \<in> set ?z. length row = ?m" by auto
  from inc_loop_entries[OF assms(1) this assms(3), of 0]
  obtain inc where res: "inc_loop g 0 ?z = Inr inc" and len: "length inc = ?n"
    and rows: "\<forall>row \<in> set inc. length row = ?m"
    and ent: "\<And>r c. r < ?n \<Longrightarrow> c < ?m \<Longrightarrow> inc ! r ! c =
              (if int r = snd (m_edges g ! c)
               then (if m_directed g then - \<bar>m_adj_matrix g ! nat (fst (m_edges g ! c)) ! nat (snd (m_edges g ! c))\<bar>
                     else \<bar>m_adj_matrix g ! nat (fst (m_edges g ! c)) ! nat (snd (m_edges g ! c))\<bar>)
               else if int r = fst (m_edges g ! c)
               then \<bar>m_adj_matrix g ! nat (fst (m_edges g ! c)) ! nat (snd (m_edges g ! c))\<bar>
               else 0)"
    by auto
  have g: "get_inc_matrix g = Inr (inc, g\<lparr> m_inc_matrix := inc \<rparr>)"
    using assms res by (simp add: get_inc_matrix_def graph_ok_def)
  have "\<forall>i < ?m. \<forall>u v w.
              m_edges g ! i = (u, v) \<and> w = \<bar>m_adj_matrix g ! nat u ! nat v\<bar> \<longrightarrow>
                (u \<noteq> v \<longrightarrow> inc ! nat u ! i = w) \<and>
                inc ! nat v ! i = (if m_directed g then - w else w) \<and>
                (\<forall>r < ?n. int r \<noteq> u \<and> int r \<noteq> v \<longrightarrow> inc ! r ! i = 0)"
  proof (intro allI impI, elim conjE)
    fix i u v w
    assume i: "i < ?m" and e: "m_edges g ! i = (u, v)" and w: "w = \<bar>m_adj_matrix g ! nat u ! nat v\<bar>"
    have "(u, v) \<in> set (m_edges g)" using i e by (metis nth_mem)
    then have b: "0 \<le> u" "u < m_vertices g" "0 \<le> v" "v < m_vertices g"
      using assms(1) unfolding graph_ok_def by fastforce+
    then have n: "nat u < ?n" "nat v < ?n" by auto
    have 1: "u \<noteq> v \<longrightarrow> inc ! nat u ! i = w"
      using ent[OF n(1) i] b by (simp add: e w)
    have 2: "inc ! nat v ! i = (if m_directed g then - w else w)"
      using ent[OF n(2) i] b by (simp add: e w)
    have 3: "\<forall>r < ?n. int r \<noteq> u \<and> int r \<noteq> v \<longrightarrow> inc ! r ! i = 0"
      using ent[OF _ i] by (simp add: e)
    from 1 2 3 show "(u \<noteq> v \<longrightarrow> inc ! nat u ! i = w) \<and>
                inc ! nat v ! i = (if m_directed g then - w else w) \<and>
                (\<forall>r < ?n. int r \<noteq> u \<and> int r \<noteq> v \<longrightarrow> inc ! r ! i = 0)" by blast
  qed
  with g len rows show ?thesis by blast
qed

text \<open>
  C3, amended: for a graph of the class whose incidence matrix has not been computed yet and
  in which no recorded edge \<open>(u, v)\<close> has the matrix entry \<open>adjacencyMatrix[u][v] = INT_MIN\<close>,
  \<open>get_inc_matrix\<close> returns (and stores) a \<open>vertexCount \<times> edgeCount\<close> matrix where, for
  the edge of index \<open>i\<close> recorded as \<open>(u, v)\<close> with \<open>w = \<bar>adjacencyMatrix[u][v]\<bar>\<close>, entry
  \<open>[v][i]\<close> is \<open>-w\<close> if the graph is directed and \<open>w\<close> otherwise, entry \<open>[u][i]\<close> is \<open>w\<close>
  when \<open>u \<noteq> v\<close>, and every other entry of column \<open>i\<close> is 0.
\<close>

theorem get_inc_matrix_entries:
  assumes "graph_ok g" "m_inc_matrix g = []"
    and "\<forall>e \<in> set (m_edges g). INT_MIN < m_adj_matrix g ! nat (fst e) ! nat (snd e) \<and>
                            m_adj_matrix g ! nat (fst e) ! nat (snd e) \<le> INT_MAX"
  shows "\<exists>inc. get_inc_matrix g = Inr (inc, g\<lparr> m_inc_matrix := inc \<rparr>) \<and>
           length inc = nat (m_vertices g) \<and>
           (\<forall>row \<in> set inc. length row = length (m_edges g)) \<and>
           (\<forall>i < length (m_edges g). \<forall>u v w.
              m_edges g ! i = (u, v) \<and> w = \<bar>m_adj_matrix g ! nat u ! nat v\<bar> \<longrightarrow>
                (u \<noteq> v \<longrightarrow> inc ! nat u ! i = w) \<and>
                inc ! nat v ! i = (if m_directed g then - w else w) \<and>
                (\<forall>r < nat (m_vertices g). int r \<noteq> u \<and> int r \<noteq> v \<longrightarrow> inc ! r ! i = 0))"
  using assms by (rule inc_matrix_entries)


text \<open>
  The amended C3 on the scenario of the specification: 3 vertices, undirected edges
  \<open>(0,1,2)\<close> and \<open>(1,2,3)\<close>; the matrix is 3 \<times> 2 with column 0 = \<open>{0:2, 1:2, 2:0}\<close> and
  column 1 = \<open>{0:0, 1:3, 2:3}\<close>.
\<close>

theorem get_inc_matrix_entries_witness:
  "graph_ok scenario3 \<and> m_inc_matrix scenario3 = [] \<and>
   m_edges scenario3 = [(0, 1), (1, 2)] \<and>
   m_adj_matrix scenario3 ! 0 ! 1 = 2 \<and> m_adj_matrix scenario3 ! 1 ! 2 = 3 \<and>
   INT_MIN < 2 \<and> 3 \<le> INT_MAX \<and>
   (\<exists>inc. get_inc_matrix scenario3 = Inr (inc, scenario3\<lparr> m_inc_matrix := inc \<rparr>) \<and>
      inc = [[2, 0], [2, 3], [0, 3]] \<and>
      length inc = nat (m_vertices scenario3) \<and>
      (\<forall>row \<in> set inc. length row = length (m_edges scenario3)))"
proof -
  have ok: "graph_ok scenario3" and e: "m_inc_matrix scenario3 = []"
    by (simp_all add: graph_ok_def scenario3_def)
  have es: "m_edges scenario3 = [(0, 1), (1, 2)]"
    "m_adj_matrix scenario3 ! 0 ! 1 = 2" "m_adj_matrix scenario3 ! 1 ! 2 = 3"
    "INT_MIN < 2" "3 \<le> INT_MAX"
    by (simp_all add: scenario3_def INT_MIN_def INT_MAX_def)
  have w: "\<forall>e \<in> set (m_edges scenario3).
             INT_MIN < m_adj_matrix scenario3 ! nat (fst e) ! nat (snd e) \<and>
             m_adj_matrix scenario3 ! nat (fst e) ! nat (snd e) \<le> INT_MAX"
    by (simp add: scenario3_def INT_MIN_def INT_MAX_def numeral_2_eq_2)
  have ev: "get_inc_matrix scenario3
            = Inr ([[2, 0], [2, 3], [0, 3]], scenario3\<lparr> m_inc_matrix := [[2, 0], [2, 3], [0, 3]] \<rparr>)"
    by (simp add: get_inc_matrix_def scenario3_def inc_loop.simps mat_set_def mat_at_def
        vec_at_def vec_set_def numeral_3_eq_3 numeral_2_eq_2 c_int_def INT_MIN_def INT_MAX_def)
  from get_inc_matrix_entries[OF ok e w] obtain inc where
    r: "get_inc_matrix scenario3 = Inr (inc, scenario3\<lparr> m_inc_matrix := inc \<rparr>)"
    and l: "length inc = nat (m_vertices scenario3)"
      "\<forall>row \<in> set inc. length row = length (m_edges scenario3)"
    by blast
  from r ev have "inc = [[2, 0], [2, 3], [0, 3]]" by simp
  with ok e es r l show ?thesis by blast
qed

subsection \<open>The cached matrix\<close>

lemma mat_set_length: "mat_set m i j x = Inr m' \<Longrightarrow> length m' = length m"
  unfolding mat_set_def bind_r_eq_Inr
  by (auto dest!: vec_set_Inr_eq)

lemma inc_loop_length: "inc_loop g i inc = Inr inc' \<Longrightarrow> length inc' = length inc"
proof (induction "length (m_edges g) - i" arbitrary: i inc)
  case 0
  then show ?case by (simp add: inc_loop.simps)
next
  case (Suc k)
  then have i: "i < length (m_edges g)" and k: "k = length (m_edges g) - Suc i" by simp_all
  from Suc.prems i obtain w sg inc1 inc2 where
    s1: "mat_set inc (fst (m_edges g ! i)) (int i) w = Inr inc1"
    and s2: "mat_set inc1 (snd (m_edges g ! i)) (int i) sg = Inr inc2"
    and r: "inc_loop g (Suc i) inc2 = Inr inc'"
    by (subst (asm) inc_loop.simps) (auto simp: bind_r_eq_Inr Let_def)
  from Suc.hyps(1)[OF k r] mat_set_length[OF s1] mat_set_length[OF s2] show ?case by simp
qed

lemma get_inc_matrix_cached:
  assumes "graph_ok g" "get_inc_matrix g = Inr (m, g1)"
  shows "graph_ok g1 \<and> cached m g1"
proof (cases "m_inc_matrix g = []")
  case False
  then show ?thesis using assms by (auto simp: get_inc_matrix_def cached_def)
next
  case True
  let ?n = "nat (m_vertices g)"
  let ?z = "replicate ?n (replicate (length (m_edges g)) (0::int))"
  have nn: "0 \<le> m_vertices g" using assms(1) by (simp add: graph_ok_def)
  from assms(2) True nn obtain inc where res: "inc_loop g 0 ?z = Inr inc"
    and m: "m = inc" and g1: "g1 = g\<lparr> m_inc_matrix := inc \<rparr>"
    by (auto simp: get_inc_matrix_def bind_r_eq_Inr)
  have len: "length inc = ?n" using inc_loop_length[OF res] by simp
  have ok1: "graph_ok g1" using assms(1) by (simp add: g1 graph_ok_def)
  have "cached m g1"
  proof (cases "?n = 0")
    case False
    then show ?thesis using len by (auto simp: cached_def m g1)
  next
    case z: True
    then have v0: "m_vertices g = 0" using nn by simp
    have "m_edges g = []"
    proof (cases "m_edges g")
      case (Cons e es)
      then have "e \<in> set (m_edges g)" by simp
      then show ?thesis using assms(1) v0 unfolding graph_ok_def by force
    qed simp
    then show ?thesis using len z v0 by (simp add: cached_def m g1)
  qed
  with ok1 show ?thesis by simp
qed

lemma cached_get_inc_matrix:
  assumes "cached m g"
  shows "get_inc_matrix g = Inr (m, g)"
  using assms unfolding cached_def
  by (auto simp: get_inc_matrix_def inc_loop.simps)

lemma cached_add_edge:
  assumes "graph_ok g" "cached m g" "add_edge g u v w = Inr g'"
  shows "cached m g'"
  using add_edge_keeps[OF assms(1,3)] add_edge_Inr_valid[OF assms(1,3)] assms(2)
  unfolding cached_def by auto

lemma run_cached:
  "graph_ok g \<Longrightarrow> cached m g \<Longrightarrow> run g cs = Inr (ms, g') \<Longrightarrow> \<forall>x \<in> set ms. x = m"
proof (induction cs arbitrary: g ms)
  case Nil
  then show ?case by simp
next
  case (Cons c cs)
  show ?case
  proof (cases c)
    case (AddEdge u v w)
    with Cons.prems(3) obtain g1 where a: "add_edge g u v w = Inr g1" and r: "run g1 cs = Inr (ms, g')"
      by (auto simp: bind_r_eq_Inr)
    show ?thesis
      using Cons.IH[OF _ cached_add_edge[OF Cons.prems(1,2) a] r] add_edge_keeps[OF Cons.prems(1) a]
      by blast
  next
    case GetIncMatrix
    with Cons.prems(3) obtain ms1 where r: "run g cs = Inr (ms1, g')" and ms: "ms = m # ms1"
      by (auto simp: bind_r_eq_Inr cached_get_inc_matrix[OF Cons.prems(2)])
    show ?thesis using Cons.IH[OF Cons.prems(1,2) r] ms by simp
  qed
qed

text \<open>
  C4: in every sequence of \<open>add_edge\<close> and \<open>get_inc_matrix\<close> calls on a graph of the class
  that runs without undefined behaviour, every \<open>get_inc_matrix\<close> call returns the matrix the
  first one returned, whatever \<open>add_edge\<close> calls lie between them.
\<close>

theorem get_inc_matrix_stale_cache:
  "graph_ok g \<Longrightarrow> run g cs = Inr (ms, g') \<Longrightarrow> \<forall>x \<in> set ms. x = hd ms"
proof (induction cs arbitrary: g ms)
  case Nil
  then show ?case by simp
next
  case (Cons c cs)
  show ?case
  proof (cases c)
    case (AddEdge u v w)
    with Cons.prems(2) obtain g1 where a: "add_edge g u v w = Inr g1" and r: "run g1 cs = Inr (ms, g')"
      by (auto simp: bind_r_eq_Inr)
    show ?thesis
      using Cons.IH[OF _ r] add_edge_keeps[OF Cons.prems(1) a] by blast
  next
    case GetIncMatrix
    with Cons.prems(2) obtain m g1 ms1 where i: "get_inc_matrix g = Inr (m, g1)"
      and r: "run g1 cs = Inr (ms1, g')" and ms: "ms = m # ms1"
      by (auto simp: bind_r_eq_Inr)
    from get_inc_matrix_cached[OF Cons.prems(1) i] run_cached[OF _ _ r]
    have "\<forall>x \<in> set ms1. x = m" by blast
    then show ?thesis using ms by simp
  qed
qed

text \<open>
  C4 on \<open>Graph(2, false)\<close>: \<open>get_inc_matrix\<close>, \<open>add_edge(0, 1, 7)\<close>, \<open>get_inc_matrix\<close>; both
  calls return the 2 \<times> 0 matrix, although the graph has an edge at the second call.
\<close>

theorem get_inc_matrix_stale_cache_witness:
  "graph_ok graph2u \<and>
   run graph2u [GetIncMatrix, AddEdge 0 1 7, GetIncMatrix]
     = Inr ([[[], []], [[], []]],
            graph2u\<lparr> m_adj_matrix := [[0, 7], [7, 0]], m_adj_list := [[(1, 7)], []],
                      m_edges := [(0, 1)], m_inc_matrix := [[], []] \<rparr>) \<and>
   [[[], []], [[], []::int list]] ! 1 = hd [[[], []], [[], []::int list]]"
proof -
  have ok: "graph_ok graph2u" by (simp add: graph_ok_def graph2u_def)
  have r: "run graph2u [GetIncMatrix, AddEdge 0 1 7, GetIncMatrix]
     = Inr ([[[], []], [[], []]],
            graph2u\<lparr> m_adj_matrix := [[0, 7], [7, 0]], m_adj_list := [[(1, 7)], []],
                      m_edges := [(0, 1)], m_inc_matrix := [[], []] \<rparr>)"
    by (simp add: graph2u_def get_inc_matrix_def inc_loop.simps add_edge_def mat_set_def mat_at_def
        vec_at_def vec_set_def numeral_2_eq_2)
  from get_inc_matrix_stale_cache[OF ok r] ok r show ?thesis by simp
qed

section \<open>An edge added twice\<close>

lemma add_edge_fields:
  assumes ok: "graph_ok g" and r: "add_edge g a b w = Inr g'"
  shows "m_edges g' = m_edges g @ [(a, b)]"
    and "m_adj_list g' = (m_adj_list g)[nat a := m_adj_list g ! nat a @ [(b, w)]]"
proof -
  note b = add_edge_Inr_valid[OF ok r]
  then have ab: "0 \<le> a" "a < m_vertices g" "0 \<le> b" "b < m_vertices g" by simp_all
  show "m_edges g' = m_edges g @ [(a, b)]"
    using r unfolding add_edge_ok[OF ok ab] by auto
  show "m_adj_list g' = (m_adj_list g)[nat a := m_adj_list g ! nat a @ [(b, w)]]"
    using r unfolding add_edge_ok[OF ok ab] by auto
qed

lemma add_edge_succeeds:
  assumes "graph_ok g" "0 \<le> a" "a < m_vertices g" "0 \<le> b" "b < m_vertices g"
  shows "\<exists>g'. add_edge g a b w = Inr g'"
  using add_edge_ok[OF assms] by simp

text \<open>A sequence of \<open>add_edge\<close> calls with indices in range: what it leaves.\<close>

lemma add_edges_result:
  assumes "graph_ok g"
    and "\<forall>c \<in> set es. 0 \<le> fst c \<and> fst c < m_vertices g \<and> 0 \<le> fst (snd c) \<and> fst (snd c) < m_vertices g"
    and "0 \<le> u" "u < m_vertices g"
  shows "\<exists>g'. add_edges g es = Inr g' \<and> graph_ok g' \<and> m_inc_matrix g' = m_inc_matrix g \<and>
           m_vertices g' = m_vertices g \<and> m_directed g' = m_directed g \<and>
           m_edges g' = m_edges g @ map (\<lambda>c. (fst c, fst (snd c))) es \<and>
           m_adj_list g' ! nat u = m_adj_list g ! nat u @ map snd (filter (\<lambda>c. fst c = u) es)"
  using assms
proof (induction es arbitrary: g)
  case Nil
  then show ?case by simp
next
  case (Cons c es)
  obtain a b w where c: "c = (a, b, w)" by (cases c) auto
  have ab: "0 \<le> a" "a < m_vertices g" "0 \<le> b" "b < m_vertices g"
    using Cons.prems(2) c by simp_all
  obtain h where h: "add_edge g a b w = Inr h"
    using add_edge_succeeds[OF Cons.prems(1) ab] by blast
  note k = add_edge_keeps[OF Cons.prems(1) h]
  note f = add_edge_fields[OF Cons.prems(1) h]
  have okh: "graph_ok h" and nv: "m_vertices h = m_vertices g" using k by simp_all
  have rest: "\<forall>c \<in> set es. 0 \<le> fst c \<and> fst c < m_vertices h \<and> 0 \<le> fst (snd c) \<and> fst (snd c) < m_vertices h"
    using Cons.prems(2) nv by simp
  have uh: "0 \<le> u" "u < m_vertices h" using Cons.prems(3,4) nv by simp_all
  from Cons.IH[OF okh rest uh] obtain g' where
    r: "add_edges h es = Inr g'" and ok': "graph_ok g'" and
    i: "m_inc_matrix g' = m_inc_matrix h" "m_vertices g' = m_vertices h" "m_directed g' = m_directed h"
    and e: "m_edges g' = m_edges h @ map (\<lambda>c. (fst c, fst (snd c))) es"
    and l: "m_adj_list g' ! nat u = m_adj_list h ! nat u @ map snd (filter (\<lambda>c. fst c = u) es)"
    by blast
  have len: "length (m_adj_list g) = nat (m_vertices g)"
    using Cons.prems(1) by (simp add: graph_ok_def)
  have un: "nat u < length (m_adj_list g)" using Cons.prems(3,4) len by auto
  have eq: "nat a = nat u \<longleftrightarrow> a = u" using ab(1) Cons.prems(3) by auto
  have lh: "m_adj_list h ! nat u = m_adj_list g ! nat u @ map snd (filter (\<lambda>c. fst c = u) [c])"
  proof (cases "a = u")
    case True
    then show ?thesis using un by (simp add: f(2) c)
  next
    case False
    then have "nat a \<noteq> nat u" using eq by simp
    then show ?thesis using False by (simp add: f(2) c)
  qed
  have 1: "add_edges g (c # es) = Inr g'" by (simp add: c h r bind_r_def)
  have 2: "m_edges g' = m_edges g @ map (\<lambda>c. (fst c, fst (snd c))) (c # es)"
    by (simp add: e f(1) c)
  have 3: "m_adj_list g' ! nat u = m_adj_list g ! nat u @ map snd (filter (\<lambda>c. fst c = u) (c # es))"
    unfolding l lh by simp
  from 1 ok' i k 2 3 show ?case by simp
qed

lemma add_edges_append:
  "add_edges g (es @ fs) = bind_r (add_edges g es) (\<lambda>g'. add_edges g' fs)"
proof (induction es arbitrary: g)
  case Nil
  then show ?case by (simp add: bind_r_def)
next
  case (Cons c es)
  obtain a b w where c: "c = (a, b, w)" by (cases c) auto
  show ?case
    by (cases "add_edge g a b w") (simp_all add: c bind_r_def Cons.IH)
qed

text \<open>Two graphs that differ at most in the entries that \<open>add_edge(u, v, _)\<close> writes.\<close>

lemma agree_off_add_edge:
  assumes ag: "agree_off u v g g'" and a: "add_edge g a b w = Inr h"
  shows "\<exists>h'. add_edge g' a b w = Inr h' \<and> agree_off u v h h'"
proof -
  have ok: "graph_ok g" "graph_ok g'" and eq: "m_vertices g' = m_vertices g" "m_directed g' = m_directed g"
    "m_edges g' = m_edges g" "m_inc_matrix g' = m_inc_matrix g"
    and off: "\<And>i j. \<not> (i = nat u \<and> j = nat v) \<Longrightarrow> \<not> (\<not> m_directed g \<and> i = nat v \<and> j = nat u)
        \<Longrightarrow> m_adj_matrix g' ! i ! j = m_adj_matrix g ! i ! j"
    using ag unfolding agree_off_def by auto
  note b = add_edge_Inr_valid[OF ok(1) a]
  then have ab: "0 \<le> a" "a < m_vertices g" "0 \<le> b" "b < m_vertices g" by simp_all
  have ab': "0 \<le> a" "a < m_vertices g'" "0 \<le> b" "b < m_vertices g'" using ab eq by simp_all
  obtain h' where a': "add_edge g' a b w = Inr h'"
    using add_edge_succeeds[OF ok(2) ab'] by blast
  note c = add_edge_cells[OF ok(1) ab a]
  note c' = add_edge_cells[OF ok(2) ab' a']
  note k = add_edge_keeps[OF ok(1) a]
  note k' = add_edge_keeps[OF ok(2) a']
  note f = add_edge_fields[OF ok(1) a]
  note f' = add_edge_fields[OF ok(2) a']
  have cells: "m_adj_matrix h' ! i ! j = m_adj_matrix h ! i ! j"
    if n1: "\<not> (i = nat u \<and> j = nat v)" and n2: "\<not> (\<not> m_directed h \<and> i = nat v \<and> j = nat u)" for i j
  proof -
    have n2g: "\<not> (\<not> m_directed g \<and> i = nat v \<and> j = nat u)" using n2 k by simp
    consider "i = nat a \<and> j = nat b" | "\<not> m_directed g \<and> i = nat b \<and> j = nat a"
      | "\<not> (i = nat a \<and> j = nat b) \<and> \<not> (\<not> m_directed g \<and> i = nat b \<and> j = nat a)" by blast
    then show ?thesis
    proof cases
      case 1
      then show ?thesis using c(1) c'(1) by simp
    next
      case 2
      then have nd: "\<not> m_directed g" and nd': "\<not> m_directed g'" using eq by simp_all
      show ?thesis using 2 c(2)[OF nd] c'(2)[OF nd'] by simp
    next
      case 3
      then have x: "\<not> (i = nat a \<and> j = nat b)" "\<not> (\<not> m_directed g \<and> i = nat b \<and> j = nat a)"
        and x': "\<not> (\<not> m_directed g' \<and> i = nat b \<and> j = nat a)" using eq by simp_all
      have "m_adj_matrix h' ! i ! j = m_adj_matrix g' ! i ! j" by (rule c'(3)[OF x(1) x'])
      also have "\<dots> = m_adj_matrix g ! i ! j" by (rule off[OF n1 n2g])
      also have "\<dots> = m_adj_matrix h ! i ! j" by (rule c(3)[OF x, symmetric])
      finally show ?thesis .
    qed
  qed
  have "agree_off u v h h'"
    unfolding agree_off_def using k k' eq f(1) f'(1) cells by simp
  with a' show ?thesis by blast
qed

lemma agree_off_add_edges:
  "agree_off u v g g' \<Longrightarrow> add_edges g es = Inr h \<Longrightarrow>
   \<exists>h'. add_edges g' es = Inr h' \<and> agree_off u v h h'"
proof (induction es arbitrary: g g')
  case Nil
  then show ?case by simp
next
  case (Cons c es)
  obtain a b w where c: "c = (a, b, w)" by (cases c) auto
  from Cons.prems(2) obtain k where a: "add_edge g a b w = Inr k" and r: "add_edges k es = Inr h"
    by (auto simp: c bind_r_eq_Inr)
  from agree_off_add_edge[OF Cons.prems(1) a] obtain k' where
    a': "add_edge g' a b w = Inr k'" and ag: "agree_off u v k k'" by blast
  from Cons.IH[OF ag r] obtain h' where "add_edges k' es = Inr h'" "agree_off u v h h'" by blast
  then show ?case using a' by (auto simp: c bind_r_def)
qed

lemma agree_off_start:
  assumes ok: "graph_ok g" and a: "add_edge g u v w = Inr h" and a': "add_edge g u v w' = Inr h'"
  shows "agree_off u v h h'"
proof -
  note b = add_edge_Inr_valid[OF ok a]
  then have uv: "0 \<le> u" "u < m_vertices g" "0 \<le> v" "v < m_vertices g" by simp_all
  note c = add_edge_cells[OF ok uv a]
  note c' = add_edge_cells[OF ok uv a']
  note k = add_edge_keeps[OF ok a]
  note k' = add_edge_keeps[OF ok a']
  note f = add_edge_fields[OF ok a]
  note f' = add_edge_fields[OF ok a']
  have cells: "m_adj_matrix h' ! i ! j = m_adj_matrix h ! i ! j"
    if n1: "\<not> (i = nat u \<and> j = nat v)" and n2: "\<not> (\<not> m_directed h \<and> i = nat v \<and> j = nat u)" for i j
  proof -
    have n2g: "\<not> (\<not> m_directed g \<and> i = nat v \<and> j = nat u)" using n2 k by simp
    have "m_adj_matrix h' ! i ! j = m_adj_matrix g ! i ! j" by (rule c'(3)[OF n1 n2g])
    also have "\<dots> = m_adj_matrix h ! i ! j" by (rule c(3)[OF n1 n2g, symmetric])
    finally show ?thesis .
  qed
  show ?thesis
    unfolding agree_off_def using k k' f(1) f'(1) cells by simp
qed

lemma agree_off_final:
  assumes ag: "agree_off u v g g'" and a: "add_edge g u v w = Inr h" and a': "add_edge g' u v w = Inr h'"
  shows "m_adj_matrix h' = m_adj_matrix h \<and> m_edges h' = m_edges h \<and> m_directed h' = m_directed h \<and>
         m_vertices h' = m_vertices h \<and> m_inc_matrix h' = m_inc_matrix h"
proof -
  have ok: "graph_ok g" "graph_ok g'" and eq: "m_vertices g' = m_vertices g" "m_directed g' = m_directed g"
    "m_edges g' = m_edges g" "m_inc_matrix g' = m_inc_matrix g"
    and off: "\<And>i j. \<not> (i = nat u \<and> j = nat v) \<Longrightarrow> \<not> (\<not> m_directed g \<and> i = nat v \<and> j = nat u)
        \<Longrightarrow> m_adj_matrix g' ! i ! j = m_adj_matrix g ! i ! j"
    using ag unfolding agree_off_def by auto
  note b = add_edge_Inr_valid[OF ok(1) a]
  then have uv: "0 \<le> u" "u < m_vertices g" "0 \<le> v" "v < m_vertices g" by simp_all
  have uv': "0 \<le> u" "u < m_vertices g'" "0 \<le> v" "v < m_vertices g'" using uv eq by simp_all
  note c = add_edge_cells[OF ok(1) uv a]
  note c' = add_edge_cells[OF ok(2) uv' a']
  note k = add_edge_keeps[OF ok(1) a]
  note k' = add_edge_keeps[OF ok(2) a']
  note f = add_edge_fields[OF ok(1) a]
  note f' = add_edge_fields[OF ok(2) a']
  have cells: "m_adj_matrix h' ! i ! j = m_adj_matrix h ! i ! j" for i j
  proof -
    consider "i = nat u \<and> j = nat v" | "\<not> m_directed g \<and> i = nat v \<and> j = nat u"
      | "\<not> (i = nat u \<and> j = nat v) \<and> \<not> (\<not> m_directed g \<and> i = nat v \<and> j = nat u)" by blast
    then show ?thesis
    proof cases
      case 1
      then show ?thesis using c(1) c'(1) by simp
    next
      case 2
      then have nd: "\<not> m_directed g" and nd': "\<not> m_directed g'" using eq by simp_all
      show ?thesis using 2 c(2)[OF nd] c'(2)[OF nd'] by simp
    next
      case 3
      then have x: "\<not> (i = nat u \<and> j = nat v)" "\<not> (\<not> m_directed g \<and> i = nat v \<and> j = nat u)"
        and x': "\<not> (\<not> m_directed g' \<and> i = nat v \<and> j = nat u)" using eq by simp_all
      have "m_adj_matrix h' ! i ! j = m_adj_matrix g' ! i ! j" by (rule c'(3)[OF x(1) x'])
      also have "\<dots> = m_adj_matrix g ! i ! j" by (rule off[OF x])
      also have "\<dots> = m_adj_matrix h ! i ! j" by (rule c(3)[OF x, symmetric])
      finally show ?thesis .
    qed
  qed
  have okh: "graph_ok h" "graph_ok h'" and nv: "m_vertices h' = m_vertices h"
    using k k' eq by simp_all
  have len: "length (m_adj_matrix h') = length (m_adj_matrix h)"
    using graph_ok_len[OF okh(1)] graph_ok_len[OF okh(2)] nv by simp
  have "m_adj_matrix h' = m_adj_matrix h"
  proof (rule nth_equalityI[OF len])
    fix i assume i: "i < length (m_adj_matrix h')"
    then have ih: "i < nat (m_vertices h)" "i < nat (m_vertices h')"
      using graph_ok_len[OF okh(2)] nv by simp_all
    have rl: "length (m_adj_matrix h' ! i) = length (m_adj_matrix h ! i)"
      using graph_ok_row[OF okh(1) ih(1)] graph_ok_row[OF okh(2) ih(2)] nv by simp
    show "m_adj_matrix h' ! i = m_adj_matrix h ! i"
      by (rule nth_equalityI[OF rl]) (rule cells)
  qed
  then show ?thesis using k k' eq f(1) f'(1) by simp
qed

lemma inc_loop_cong:
  assumes "m_edges g' = m_edges g" "m_adj_matrix g' = m_adj_matrix g" "m_directed g' = m_directed g"
  shows "inc_loop g' i inc = inc_loop g i inc"
proof (induction "length (m_edges g) - i" arbitrary: i inc)
  case 0
  then show ?case using assms by (simp add: inc_loop.simps[of g] inc_loop.simps[of g'])
next
  case (Suc k)
  then have k: "k = length (m_edges g) - Suc i" by simp
  show ?case
    using assms Suc.hyps(1)[OF k]
    by (subst inc_loop.simps[of g]) (subst inc_loop.simps[of g'], simp add: Let_def cong: bind_r_cong)
qed

lemma get_inc_matrix_cong:
  assumes "m_edges g' = m_edges g" "m_adj_matrix g' = m_adj_matrix g" "m_directed g' = m_directed g"
    "m_vertices g' = m_vertices g" "m_inc_matrix g' = m_inc_matrix g"
  shows "map_sum id fst (get_inc_matrix g') = map_sum id fst (get_inc_matrix g)"
proof -
  let ?z = "replicate (nat (m_vertices g)) (replicate (length (m_edges g)) (0::int))"
  have "inc_loop g' 0 ?z = inc_loop g 0 ?z" by (rule inc_loop_cong[OF assms(1-3)])
  then show ?thesis
    using assms by (cases "inc_loop g 0 ?z") (simp_all add: get_inc_matrix_def bind_r_def)
qed

text \<open>
  C10, as stated, at \<open>w2 = INT_MIN\<close> on \<open>Graph(2, false)\<close>: after \<open>add_edge(0, 1, 5)\<close> and
  \<open>add_edge(0, 1, INT_MIN)\<close> the first \<open>get_inc_matrix\<close> has no defined result, \<open>abs\<close>
  overflows.  And at \<open>w2 = -3\<close> on \<open>Graph(2, true)\<close>: the two columns carry 3 and -3, the
  absolute value of \<open>w2\<close> with the sign of the row, not \<open>w2\<close> in both rows.
\<close>

theorem add_edge_twice_counterexample:
  "bind_r (Graph 2 False) (\<lambda>g. bind_r (add_edges g [(0, 1, 5), (0, 1, INT_MIN)]) get_inc_matrix)
     = Inl UndefinedBehaviour \<and>
   map_sum id fst (bind_r (Graph 2 True) (\<lambda>g. bind_r (add_edges g [(0, 1, 5), (0, 1, - 3)]) get_inc_matrix))
     = Inr [[3, 3], [- 3, - 3]]"
  by (simp add: Graph_def add_edge_def get_inc_matrix_def inc_loop.simps mat_set_def mat_at_def
      vec_at_def vec_set_def c_int_def INT_MIN_def INT_MAX_def bind_r_def numeral_2_eq_2)

text \<open>The three stages of the calls: the first \<open>add_edge(u, v, w)\<close>, the calls between, the last.\<close>

lemma add_edge_sequence_run:
  assumes ok: "graph_ok g" and inc: "m_inc_matrix g = []"
    and uv: "0 \<le> u" "u < m_vertices g" "0 \<le> v" "v < m_vertices g"
    and es: "\<forall>c \<in> set es. 0 \<le> fst c \<and> fst c < m_vertices g \<and> 0 \<le> fst (snd c) \<and> fst (snd c) < m_vertices g"
  shows "\<exists>g1 g2 g3. add_edge g u v w = Inr g1 \<and> add_edges g1 es = Inr g2 \<and>
               add_edge g2 u v w2 = Inr g3 \<and>
               add_edges g ((u, v, w) # es @ [(u, v, w2)]) = Inr g3 \<and>
               graph_ok g2 \<and> m_vertices g2 = m_vertices g \<and> m_directed g2 = m_directed g \<and>
               m_inc_matrix g2 = [] \<and>
               m_edges g2 = m_edges g @ (u, v) # map (\<lambda>c. (fst c, fst (snd c))) es \<and>
               m_adj_list g2 ! nat u = m_adj_list g ! nat u @ (v, w) # map snd (filter (\<lambda>c. fst c = u) es)"
proof -
  obtain g1 where a1: "add_edge g u v w = Inr g1"
    using add_edge_succeeds[OF ok uv] by blast
  note k1 = add_edge_keeps[OF ok a1]
  note f1 = add_edge_fields[OF ok a1]
  have ok1: "graph_ok g1" and n1: "m_vertices g1 = m_vertices g" using k1 by simp_all
  have es1: "\<forall>c \<in> set es. 0 \<le> fst c \<and> fst c < m_vertices g1 \<and> 0 \<le> fst (snd c) \<and> fst (snd c) < m_vertices g1"
    using es n1 by simp
  have u1: "0 \<le> u" "u < m_vertices g1" using uv n1 by simp_all
  from add_edges_result[OF ok1 es1 u1] obtain g2 where
    a2: "add_edges g1 es = Inr g2" and ok2: "graph_ok g2"
    and k2: "m_inc_matrix g2 = m_inc_matrix g1" "m_vertices g2 = m_vertices g1"
      "m_directed g2 = m_directed g1"
    and e2: "m_edges g2 = m_edges g1 @ map (\<lambda>c. (fst c, fst (snd c))) es"
    and l2: "m_adj_list g2 ! nat u = m_adj_list g1 ! nat u @ map snd (filter (\<lambda>c. fst c = u) es)"
    by (elim exE conjE)
  have uv2: "0 \<le> u" "u < m_vertices g2" "0 \<le> v" "v < m_vertices g2" using uv k2 n1 by simp_all
  obtain g3 where a3: "add_edge g2 u v w2 = Inr g3"
    using add_edge_succeeds[OF ok2 uv2] by blast
  have len: "length (m_adj_list g) = nat (m_vertices g)" using ok by (simp add: graph_ok_def)
  have un: "nat u < length (m_adj_list g)" using uv len by auto
  have l1: "m_adj_list g1 ! nat u = m_adj_list g ! nat u @ [(v, w)]"
    using un by (simp add: f1(2))
  have all: "add_edges g ((u, v, w) # es @ [(u, v, w2)]) = Inr g3"
    by (simp add: a1 add_edges_append a2 a3 bind_r_def)
  have 1: "m_edges g2 = m_edges g @ (u, v) # map (\<lambda>c. (fst c, fst (snd c))) es"
    by (simp add: e2 f1(1))
  have 2: "m_adj_list g2 ! nat u = m_adj_list g ! nat u @ (v, w) # map snd (filter (\<lambda>c. fst c = u) es)"
    by (simp add: l2 l1)
  have 3: "m_inc_matrix g2 = []" using k2 k1 inc by simp
  have 4: "m_vertices g2 = m_vertices g" "m_directed g2 = m_directed g" using k2 k1 by simp_all
  show ?thesis
    by (intro exI[of _ g1] exI[of _ g2] exI[of _ g3] conjI) (fact a1 a2 a3 all ok2 4 3 1 2)+
qed

text \<open>
  C10, amended: for a graph of the class whose incidence matrix has not been computed and
  vertices \<open>u \<noteq> v\<close> with valid indices, the calls \<open>add_edge(u, v, w1)\<close>, then any
  \<open>add_edge\<close> calls with valid indices, then \<open>add_edge(u, v, w2)\<close> succeed and leave
  \<open>adjacencyMatrix[u][v] = w2\<close>, while \<open>adjacencyList[u]\<close> has received \<open>(v, w1)\<close> and, last,
  \<open>(v, w2)\<close>, and \<open>edges\<close> has received \<open>(u, v)\<close> twice, first and last.  If no recorded edge
  then has the matrix entry \<open>INT_MIN\<close>, a first call of \<open>get_inc_matrix\<close> made next succeeds and
  its columns for these two entries both carry \<open>\<bar>w2\<bar>\<close> in row \<open>u\<close> and, in row \<open>v\<close>,
  \<open>-\<bar>w2\<bar>\<close> if the graph is directed and \<open>\<bar>w2\<bar>\<close> otherwise.  The adjacency matrix, the edge
  list and the result of \<open>get_inc_matrix\<close> are the same for every \<open>w1\<close>: the first weight is
  left in \<open>adjacencyList[u]\<close> only.
\<close>

theorem add_edge_twice:
  assumes "graph_ok g" and "m_inc_matrix g = []"
    and "0 \<le> u" and "u < m_vertices g" and "0 \<le> v" and "v < m_vertices g" and "u \<noteq> v"
    and "\<forall>c \<in> set es. 0 \<le> fst c \<and> fst c < m_vertices g \<and> 0 \<le> fst (snd c) \<and> fst (snd c) < m_vertices g"
  shows "\<exists>g3. add_edges g ((u, v, w1) # es @ [(u, v, w2)]) = Inr g3 \<and>
           m_adj_matrix g3 ! nat u ! nat v = w2 \<and>
           m_adj_list g3 ! nat u
             = m_adj_list g ! nat u @ (v, w1) # map snd (filter (\<lambda>c. fst c = u) es) @ [(v, w2)] \<and>
           m_edges g3 = m_edges g @ (u, v) # map (\<lambda>c. (fst c, fst (snd c))) es @ [(u, v)] \<and>
           ((\<forall>e \<in> set (m_edges g3). INT_MIN < m_adj_matrix g3 ! nat (fst e) ! nat (snd e) \<and>
                                     m_adj_matrix g3 ! nat (fst e) ! nat (snd e) \<le> INT_MAX) \<longrightarrow>
            (\<exists>inc. get_inc_matrix g3 = Inr (inc, g3\<lparr> m_inc_matrix := inc \<rparr>) \<and>
               (\<forall>i \<in> {length (m_edges g), length (m_edges g) + length es + 1}.
                  inc ! nat u ! i = \<bar>w2\<bar> \<and>
                  inc ! nat v ! i = (if m_directed g then - \<bar>w2\<bar> else \<bar>w2\<bar>)))) \<and>
           (\<forall>w1'. \<exists>g3'. add_edges g ((u, v, w1') # es @ [(u, v, w2)]) = Inr g3' \<and>
              m_adj_matrix g3' = m_adj_matrix g3 \<and> m_edges g3' = m_edges g3 \<and>
              map_sum id fst (get_inc_matrix g3') = map_sum id fst (get_inc_matrix g3))"
proof -
  note ok = assms(1) and uv = assms(3-6)
  note run = add_edge_sequence_run[OF assms(1-6) assms(8)]
  from run[of w1 w2] obtain g1 g2 g3 where
    a1: "add_edge g u v w1 = Inr g1" and a2: "add_edges g1 es = Inr g2"
    and a3: "add_edge g2 u v w2 = Inr g3"
    and all: "add_edges g ((u, v, w1) # es @ [(u, v, w2)]) = Inr g3"
    and ok2: "graph_ok g2" and n2: "m_vertices g2 = m_vertices g"
    and d2: "m_directed g2 = m_directed g" and i2: "m_inc_matrix g2 = []"
    and e2: "m_edges g2 = m_edges g @ (u, v) # map (\<lambda>c. (fst c, fst (snd c))) es"
    and l2: "m_adj_list g2 ! nat u = m_adj_list g ! nat u @ (v, w1) # map snd (filter (\<lambda>c. fst c = u) es)"
    by (elim exE conjE)
  have uv2: "0 \<le> u" "u < m_vertices g2" "0 \<le> v" "v < m_vertices g2" using uv n2 by simp_all
  note c3 = add_edge_cells[OF ok2 uv2 a3]
  note k3 = add_edge_keeps[OF ok2 a3]
  note f3 = add_edge_fields[OF ok2 a3]
  have ok3: "graph_ok g3" using k3 by simp
  have len2: "length (m_adj_list g2) = nat (m_vertices g)" using ok2 n2 by (simp add: graph_ok_def)
  have un2: "nat u < length (m_adj_list g2)" using uv len2 by auto
  have cell: "m_adj_matrix g3 ! nat u ! nat v = w2" by (rule c3(1))
  have l3: "m_adj_list g3 ! nat u
             = m_adj_list g ! nat u @ (v, w1) # map snd (filter (\<lambda>c. fst c = u) es) @ [(v, w2)]"
    using un2 by (simp add: f3(2) l2)
  have e3: "m_edges g3 = m_edges g @ (u, v) # map (\<lambda>c. (fst c, fst (snd c))) es @ [(u, v)]"
    by (simp add: f3(1) e2)
  let ?i = "length (m_edges g)"
  let ?j = "length (m_edges g) + length es + 1"
  have ei: "?i < length (m_edges g3)" "m_edges g3 ! ?i = (u, v)"
    by (simp_all add: e3)
  have ej: "?j < length (m_edges g3)" "m_edges g3 ! ?j = (u, v)"
    by (simp_all add: e3 nth_append)
  have cols: "\<exists>inc. get_inc_matrix g3 = Inr (inc, g3\<lparr> m_inc_matrix := inc \<rparr>) \<and>
               (\<forall>i \<in> {?i, ?j}.
                  inc ! nat u ! i = \<bar>w2\<bar> \<and>
                  inc ! nat v ! i = (if m_directed g then - \<bar>w2\<bar> else \<bar>w2\<bar>))"
    if wt: "\<forall>e \<in> set (m_edges g3). INT_MIN < m_adj_matrix g3 ! nat (fst e) ! nat (snd e) \<and>
                                     m_adj_matrix g3 ! nat (fst e) ! nat (snd e) \<le> INT_MAX"
  proof -
    have i3: "m_inc_matrix g3 = []" using k3 i2 by simp
    have d3: "m_directed g3 = m_directed g" using k3 d2 by simp
    from inc_matrix_entries[OF ok3 i3 wt] obtain inc where
      r: "get_inc_matrix g3 = Inr (inc, g3\<lparr> m_inc_matrix := inc \<rparr>)"
      and en: "\<forall>i < length (m_edges g3). \<forall>u v w.
              m_edges g3 ! i = (u, v) \<and> w = \<bar>m_adj_matrix g3 ! nat u ! nat v\<bar> \<longrightarrow>
                (u \<noteq> v \<longrightarrow> inc ! nat u ! i = w) \<and>
                inc ! nat v ! i = (if m_directed g3 then - w else w) \<and>
                (\<forall>r < nat (m_vertices g3). int r \<noteq> u \<and> int r \<noteq> v \<longrightarrow> inc ! r ! i = 0)"
      by (elim exE conjE)
    have col: "inc ! nat u ! i = \<bar>w2\<bar> \<and> inc ! nat v ! i = (if m_directed g then - \<bar>w2\<bar> else \<bar>w2\<bar>)"
      if i: "i < length (m_edges g3)" "m_edges g3 ! i = (u, v)" for i
    proof -
      have p: "m_edges g3 ! i = (u, v) \<and> \<bar>w2\<bar> = \<bar>m_adj_matrix g3 ! nat u ! nat v\<bar>"
        using i(2) cell by simp
      from en[rule_format, OF i(1) p] assms(7) d3 show ?thesis by simp
    qed
    from col[OF ei] col[OF ej] have "\<forall>i \<in> {?i, ?j}.
                  inc ! nat u ! i = \<bar>w2\<bar> \<and>
                  inc ! nat v ! i = (if m_directed g then - \<bar>w2\<bar> else \<bar>w2\<bar>)"
      by simp
    with r show ?thesis by (intro exI[of _ inc] conjI)
  qed
  have indep: "\<exists>g3'. add_edges g ((u, v, w1') # es @ [(u, v, w2)]) = Inr g3' \<and>
              m_adj_matrix g3' = m_adj_matrix g3 \<and> m_edges g3' = m_edges g3 \<and>
              map_sum id fst (get_inc_matrix g3') = map_sum id fst (get_inc_matrix g3)" for w1'
  proof -
    from run[of w1' w2] obtain g1' g2' g3' where
      b1: "add_edge g u v w1' = Inr g1'" and b2: "add_edges g1' es = Inr g2'"
      and b3: "add_edge g2' u v w2 = Inr g3'"
      and ball: "add_edges g ((u, v, w1') # es @ [(u, v, w2)]) = Inr g3'"
      by (elim exE conjE)
    have s1: "agree_off u v g1 g1'" by (rule agree_off_start[OF ok a1 b1])
    from agree_off_add_edges[OF s1 a2] obtain h' where
      h: "add_edges g1' es = Inr h'" "agree_off u v g2 h'" by (elim exE conjE)
    from h(1) b2 have "h' = g2'" by simp
    with h(2) have s2: "agree_off u v g2 g2'" by simp
    from agree_off_final[OF s2 a3 b3] have
      s: "m_adj_matrix g3' = m_adj_matrix g3" "m_edges g3' = m_edges g3"
         "m_directed g3' = m_directed g3" "m_vertices g3' = m_vertices g3"
         "m_inc_matrix g3' = m_inc_matrix g3"
      by simp_all
    note gc = get_inc_matrix_cong[OF s(2,1,3,4,5)]
    show ?thesis
      by (intro exI[of _ g3'] conjI) (fact ball s(1) s(2) gc)+
  qed
  show ?thesis
  proof (intro exI[of _ g3] conjI)
    show "add_edges g ((u, v, w1) # es @ [(u, v, w2)]) = Inr g3" by (rule all)
    show "m_adj_matrix g3 ! nat u ! nat v = w2" by (rule cell)
    show "m_adj_list g3 ! nat u
             = m_adj_list g ! nat u @ (v, w1) # map snd (filter (\<lambda>c. fst c = u) es) @ [(v, w2)]"
      by (rule l3)
    show "m_edges g3 = m_edges g @ (u, v) # map (\<lambda>c. (fst c, fst (snd c))) es @ [(u, v)]"
      by (rule e3)
    show "(\<forall>e \<in> set (m_edges g3). INT_MIN < m_adj_matrix g3 ! nat (fst e) ! nat (snd e) \<and>
                                     m_adj_matrix g3 ! nat (fst e) ! nat (snd e) \<le> INT_MAX) \<longrightarrow>
            (\<exists>inc. get_inc_matrix g3 = Inr (inc, g3\<lparr> m_inc_matrix := inc \<rparr>) \<and>
               (\<forall>i \<in> {length (m_edges g), length (m_edges g) + length es + 1}.
                  inc ! nat u ! i = \<bar>w2\<bar> \<and>
                  inc ! nat v ! i = (if m_directed g then - \<bar>w2\<bar> else \<bar>w2\<bar>)))"
      by (rule impI) (rule cols)
    show "\<forall>w1'. \<exists>g3'. add_edges g ((u, v, w1') # es @ [(u, v, w2)]) = Inr g3' \<and>
              m_adj_matrix g3' = m_adj_matrix g3 \<and> m_edges g3' = m_edges g3 \<and>
              map_sum id fst (get_inc_matrix g3') = map_sum id fst (get_inc_matrix g3)"
      by (rule allI) (rule indep)
  qed
qed


text \<open>
  The amended C10 on \<open>Graph(2, true)\<close>: \<open>add_edge(0, 1, 5)\<close>, \<open>add_edge(1, 0, 4)\<close>,
  \<open>add_edge(0, 1, -3)\<close>; the columns 0 and 2 of the incidence matrix carry 3 and -3, and the
  first weight 9 gives the same matrices.
\<close>

theorem add_edge_twice_witness:
  "graph_ok graph2d \<and> m_inc_matrix graph2d = [] \<and> m_directed graph2d \<and> m_edges graph2d = [] \<and>
   m_adj_list graph2d ! 0 = [] \<and>
   (\<exists>g3. add_edges graph2d [(0, 1, 5), (1, 0, 4), (0, 1, - 3)] = Inr g3 \<and>
      m_adj_matrix g3 = [[0, - 3], [4, 0]] \<and>
      m_adj_list g3 ! 0 = [(1, 5), (1, - 3)] \<and>
      m_edges g3 = [(0, 1), (1, 0), (0, 1)] \<and>
      get_inc_matrix g3 = Inr ([[3, - 4, 3], [- 3, 4, - 3]], g3\<lparr> m_inc_matrix := [[3, - 4, 3], [- 3, 4, - 3]] \<rparr>) \<and>
      (\<exists>g3'. add_edges graph2d [(0, 1, 9), (1, 0, 4), (0, 1, - 3)] = Inr g3' \<and>
         m_adj_matrix g3' = m_adj_matrix g3 \<and> m_edges g3' = m_edges g3 \<and>
         map_sum id fst (get_inc_matrix g3') = map_sum id fst (get_inc_matrix g3)))"
proof -
  have ok: "graph_ok graph2d" and e: "m_inc_matrix graph2d = []"
    and f: "m_directed graph2d" "m_edges graph2d = []" "m_adj_list graph2d ! 0 = []"
    by (simp_all add: graph_ok_def graph2d_def)
  have b: "(0::int) \<le> 0" "(0::int) < m_vertices graph2d" "(0::int) \<le> 1" "(1::int) < m_vertices graph2d"
    "(0::int) \<noteq> 1"
    by (simp_all add: graph2d_def)
  have es: "\<forall>c \<in> set [(1::int, 0::int, 4::int)]. 0 \<le> fst c \<and> fst c < m_vertices graph2d \<and>
              0 \<le> fst (snd c) \<and> fst (snd c) < m_vertices graph2d"
    by (simp add: graph2d_def)
  have ev: "add_edges graph2d [(0, 1, 5), (1, 0, 4), (0, 1, - 3)]
            = Inr (graph2d\<lparr> m_adj_matrix := [[0, - 3], [4, 0]],
                             m_adj_list := [[(1, 5), (1, - 3)], [(0, 4)]],
                             m_edges := [(0, 1), (1, 0), (0, 1)] \<rparr>)"
    by (simp add: graph2d_def add_edge_def mat_set_def vec_at_def vec_set_def bind_r_def)
  have gi: "get_inc_matrix (graph2d\<lparr> m_adj_matrix := [[0, - 3], [4, 0]],
                             m_adj_list := [[(1, 5), (1, - 3)], [(0, 4)]],
                             m_edges := [(0, 1), (1, 0), (0, 1)] \<rparr>)
            = Inr ([[3, - 4, 3], [- 3, 4, - 3]],
                   graph2d\<lparr> m_adj_matrix := [[0, - 3], [4, 0]],
                             m_adj_list := [[(1, 5), (1, - 3)], [(0, 4)]],
                             m_edges := [(0, 1), (1, 0), (0, 1)],
                             m_inc_matrix := [[3, - 4, 3], [- 3, 4, - 3]] \<rparr>)"
    by (simp add: get_inc_matrix_def graph2d_def inc_loop.simps mat_set_def mat_at_def
        vec_at_def vec_set_def numeral_3_eq_3 numeral_2_eq_2 c_int_def INT_MIN_def INT_MAX_def bind_r_def)
  from add_edge_twice[OF ok e b es, of 5 "- 3"] obtain g3 where
    r: "add_edges graph2d ((0, 1, 5) # [(1, 0, 4)] @ [(0, 1, - 3)]) = Inr g3"
    and c: "(\<forall>e \<in> set (m_edges g3). INT_MIN < m_adj_matrix g3 ! nat (fst e) ! nat (snd e) \<and>
                                     m_adj_matrix g3 ! nat (fst e) ! nat (snd e) \<le> INT_MAX) \<longrightarrow>
            (\<exists>inc. get_inc_matrix g3 = Inr (inc, g3\<lparr> m_inc_matrix := inc \<rparr>) \<and>
               (\<forall>i \<in> {length (m_edges graph2d), length (m_edges graph2d) + length [(1::int, 0::int, 4::int)] + 1}.
                  inc ! nat 0 ! i = \<bar>- 3\<bar> \<and>
                  inc ! nat 1 ! i = (if m_directed graph2d then - \<bar>- 3\<bar> else \<bar>- 3\<bar>)))"
    and i: "\<forall>w1'. \<exists>g3'. add_edges graph2d ((0, 1, w1') # [(1, 0, 4)] @ [(0, 1, - 3)]) = Inr g3' \<and>
              m_adj_matrix g3' = m_adj_matrix g3 \<and> m_edges g3' = m_edges g3 \<and>
              map_sum id fst (get_inc_matrix g3') = map_sum id fst (get_inc_matrix g3)"
    by (elim exE conjE)
  from r ev have g3: "g3 = graph2d\<lparr> m_adj_matrix := [[0, - 3], [4, 0]],
                             m_adj_list := [[(1, 5), (1, - 3)], [(0, 4)]],
                             m_edges := [(0, 1), (1, 0), (0, 1)] \<rparr>" by simp
  have wt: "\<forall>e \<in> set (m_edges g3). INT_MIN < m_adj_matrix g3 ! nat (fst e) ! nat (snd e) \<and>
                                     m_adj_matrix g3 ! nat (fst e) ! nat (snd e) \<le> INT_MAX"
    by (simp add: g3 INT_MIN_def INT_MAX_def)
  from mp[OF c wt] obtain inc where
    ci: "get_inc_matrix g3 = Inr (inc, g3\<lparr> m_inc_matrix := inc \<rparr>)"
    by (elim exE conjE)
  from ci gi have inc: "inc = [[3, - 4, 3], [- 3, 4, - 3]]" unfolding g3 by simp
  from spec[OF i, of 9] obtain g3' where
    i': "add_edges graph2d ((0, 1, 9) # [(1, 0, 4)] @ [(0, 1, - 3)]) = Inr g3'"
      "m_adj_matrix g3' = m_adj_matrix g3" "m_edges g3' = m_edges g3"
      "map_sum id fst (get_inc_matrix g3') = map_sum id fst (get_inc_matrix g3)"
    by (elim exE conjE)
  have 1: "add_edges graph2d [(0, 1, 5), (1, 0, 4), (0, 1, - 3)] = Inr g3" using r by simp
  have 2: "m_adj_matrix g3 = [[0, - 3], [4, 0]]" "m_adj_list g3 ! 0 = [(1, 5), (1, - 3)]"
    "m_edges g3 = [(0, 1), (1, 0), (0, 1)]"
    by (simp_all add: g3)
  have 3: "get_inc_matrix g3 = Inr ([[3, - 4, 3], [- 3, 4, - 3]], g3\<lparr> m_inc_matrix := [[3, - 4, 3], [- 3, 4, - 3]] \<rparr>)"
    using ci unfolding inc .
  have 4: "add_edges graph2d [(0, 1, 9), (1, 0, 4), (0, 1, - 3)] = Inr g3'" using i'(1) by simp
  have 5: "\<exists>g3'. add_edges graph2d [(0, 1, 9), (1, 0, 4), (0, 1, - 3)] = Inr g3' \<and>
         m_adj_matrix g3' = m_adj_matrix g3 \<and> m_edges g3' = m_edges g3 \<and>
         map_sum id fst (get_inc_matrix g3') = map_sum id fst (get_inc_matrix g3)"
    by (intro exI[of _ g3'] conjI) (fact 4 i'(2) i'(3) i'(4))+
  have 6: "\<exists>g3. add_edges graph2d [(0, 1, 5), (1, 0, 4), (0, 1, - 3)] = Inr g3 \<and>
      m_adj_matrix g3 = [[0, - 3], [4, 0]] \<and>
      m_adj_list g3 ! 0 = [(1, 5), (1, - 3)] \<and>
      m_edges g3 = [(0, 1), (1, 0), (0, 1)] \<and>
      get_inc_matrix g3 = Inr ([[3, - 4, 3], [- 3, 4, - 3]], g3\<lparr> m_inc_matrix := [[3, - 4, 3], [- 3, 4, - 3]] \<rparr>) \<and>
      (\<exists>g3'. add_edges graph2d [(0, 1, 9), (1, 0, 4), (0, 1, - 3)] = Inr g3' \<and>
         m_adj_matrix g3' = m_adj_matrix g3 \<and> m_edges g3' = m_edges g3 \<and>
         map_sum id fst (get_inc_matrix g3') = map_sum id fst (get_inc_matrix g3))"
    by (rule exI[of _ g3], intro conjI) (fact 1 2 3 5)+
  show ?thesis
    by (intro conjI) (fact ok e f 6)+
qed

section \<open>\<open>generate_graph\<close>\<close>

text \<open>
  C9: the result of \<open>generate_graph\<close>, or its not returning, is the same for any two values of
  \<open>max_edges_per_vertex\<close> when the other arguments and the random stream are equal.
\<close>

theorem generate_graph_ignores_max_edges_per_vertex:
  "generate_graph min_vertices max_vertices min_edges max_edges m1 directed
       max_incoming_edges max_outgoing_edges rnd
   = generate_graph min_vertices max_vertices min_edges max_edges m2 directed
       max_incoming_edges max_outgoing_edges rnd"
  by (simp add: generate_graph_def)

subsection \<open>The \<open>directed\<close> argument\<close>

text \<open>
  C1 at \<open>generate_graph(3, 3, 2, 2, 10, true, 2, 2)\<close> with the \<open>rand()\<close> values 0, 0 (3 vertices,
  2 edges), then 0, 1, 41 (edge \<open>(0,1)\<close> of weight 42), 1, 0 (the candidate \<open>(1,0)\<close>), 1, 2, 9
  (edge \<open>(1,2)\<close> of weight 10): the graph returned is undirected, \<open>add_edge(0, 1, 42)\<close> has set
  both \<open>[0][1]\<close> and \<open>[1][0]\<close>, and the candidate \<open>(1,0)\<close> was rejected as a duplicate.
\<close>

theorem generate_graph_directed_flag_dropped:
  "generate_graph 3 3 2 2 10 True 2 2 (rand_of [0, 0, 0, 1, 41, 1, 0, 1, 2, 9])
     = Some (Inr \<lparr> m_vertices = 3, m_directed = False,
                   m_adj_matrix = [[0, 42, 0], [42, 0, 10], [0, 10, 0]],
                   m_adj_list = [[(1, 42)], [(2, 10)], []], m_edges = [(0, 1), (1, 2)],
                   m_inc_matrix = [] \<rparr>)"
  by (simp add: generate_graph_def gen_loop.simps loop_body_def c_mod_def c_int_def INT_MIN_def
      INT_MAX_def rand_of_def Graph_def smod_int_alt_def get_adj_matrix_def add_edge_def mat_at_def
      mat_set_def vec_at_def vec_set_def numeral_3_eq_3 numeral_2_eq_2)

text \<open>On every input, a graph that \<open>generate_graph\<close> returns is undirected.\<close>

lemma add_edge_directed: "add_edge g u v w = Inr g' \<Longrightarrow> m_directed g' = m_directed g"
  by (auto simp: add_edge_def bind_r_eq_Inr Let_def split: if_splits)

lemma loop_body_directed:
  assumes "loop_body rnd n c d mi mo s = Inr (brk, s')"
  shows "m_directed (gs_g s') = m_directed (gs_g s)"
proof -
  have "gs_g s' = gs_g s \<or> (\<exists>u v w. add_edge (gs_g s) u v w = Inr (gs_g s'))"
    using assms
    by (auto simp: loop_body_def Let_def bind_r_eq_Inr split: if_splits prod.splits)
  then show ?thesis using add_edge_directed by auto
qed

lemma gen_loop_undirected:
  assumes h: "gen_loop rnd n c d mi mo s = Some y"
  shows "\<not> m_directed (gs_g s) \<longrightarrow> (\<forall>g. y = Inr g \<longrightarrow> \<not> m_directed g)"
proof (rule gen_loop.raw_induct[where P = "\<lambda>rnd n c d mi mo s y.
          \<not> m_directed (gs_g s) \<longrightarrow> (\<forall>g. y = Inr g \<longrightarrow> \<not> m_directed g)", OF _ h])
  fix gen_loop' :: "(nat \<Rightarrow> int) \<Rightarrow> int \<Rightarrow> int \<Rightarrow> bool \<Rightarrow> int \<Rightarrow> int \<Rightarrow> gen_state \<Rightarrow> (error + graph) option"
  fix rnd n c d mi mo s y
  assume IH: "\<And>rnd n c d mi mo s y. gen_loop' rnd n c d mi mo s = Some y \<Longrightarrow>
                \<not> m_directed (gs_g s) \<longrightarrow> (\<forall>g. y = Inr g \<longrightarrow> \<not> m_directed g)"
  assume eq: "(if 0 < gs_num_edges s
        then case loop_body rnd n c d mi mo s of
             Inl e \<Rightarrow> Some (Inl e)
             | Inr (brk, s') \<Rightarrow>
                 if brk then Some (Inr (gs_g s'))
                 else gen_loop' rnd n c d mi mo s'
        else Some (Inr (gs_g s))) = Some y"
  show "\<not> m_directed (gs_g s) \<longrightarrow> (\<forall>g. y = Inr g \<longrightarrow> \<not> m_directed g)"
    using eq IH loop_body_directed[of rnd n c d mi mo s]
    by (auto split: if_splits sum.splits prod.splits)
qed

lemma generate_graph_undirected:
  "generate_graph min_vertices max_vertices min_edges max_edges max_edges_per_vertex directed
       max_incoming_edges max_outgoing_edges rnd = Some (Inr g) \<Longrightarrow> \<not> m_directed g"
proof -
  assume r: "generate_graph min_vertices max_vertices min_edges max_edges max_edges_per_vertex directed
       max_incoming_edges max_outgoing_edges rnd = Some (Inr g)"
  then obtain n c e g0 where g0: "Graph n False = Inr g0"
    and l: "gen_loop rnd n c directed max_incoming_edges max_outgoing_edges
              \<lparr> gs_g = g0, gs_num_edges = e,
                gs_edges_per_vertex = replicate (nat n) 0,
                gs_incoming_edges_per_vertex = replicate (nat n) 0,
                gs_outgoing_edges_per_vertex = replicate (nat n) 0,
                gs_pos = 2 \<rparr> = Some (Inr g)"
    unfolding generate_graph_def by (auto split: sum.splits)
  have "\<not> m_directed g0" using g0 by (auto simp: Graph_def split: if_splits)
  with gen_loop_undirected[OF l] show "\<not> m_directed g" by simp
qed

subsection \<open>Inputs the loop cannot satisfy\<close>

lemma sum_list_le_bound: "\<forall>x \<in> set xs. x \<le> (c::int) \<Longrightarrow> sum_list xs \<le> int (length xs) * c"
  by (induction xs) (auto simp: distrib_right)

lemma sum_list_update_int:
  "i < length xs \<Longrightarrow> sum_list (xs[i := x]) = sum_list xs - xs ! i + (x::int)"
  by (induction xs arbitrary: i) (auto split: nat.splits)

lemma c_mod_range:
  "0 \<le> a \<Longrightarrow> 0 < b \<Longrightarrow> \<exists>r. c_mod a b = Inr r \<and> 0 \<le> r \<and> r < b"
  by (simp add: c_mod_def INT_MIN_def smod_int_compares)

lemma c_mod_nonneg: "0 \<le> a \<Longrightarrow> b \<noteq> 0 \<Longrightarrow> c_mod a b = Inr (a smod b)"
  by (simp add: c_mod_def INT_MIN_def)

lemma c_int_ok: "INT_MIN \<le> x \<Longrightarrow> x \<le> INT_MAX \<Longrightarrow> c_int x = Inr x"
  by (simp add: c_int_def)

text \<open>
  One pass through the body from a state of the right shapes: the candidate is rejected, or
  it has passed every test and its edge is added.
\<close>

lemma loop_body_cases:
  assumes wf: "gen_wf n s" and rnd: "\<forall>k. 0 \<le> rnd k" and n: "1 \<le> n"
  shows "loop_body rnd n c directed mi mo s = Inr (False, s\<lparr> gs_pos := gs_pos s + 2 \<rparr>) \<or>
     (\<exists>u v w g'. 0 \<le> u \<and> u < n \<and> 0 \<le> v \<and> v < n \<and> u \<noteq> v \<and>
        gs_edges_per_vertex s ! nat u < c \<and> gs_edges_per_vertex s ! nat v < c \<and>
        (directed \<longrightarrow> gs_incoming_edges_per_vertex s ! nat v < mi \<and>
                      gs_outgoing_edges_per_vertex s ! nat u < mo) \<and>
        add_edge (gs_g s) u v w = Inr g' \<and>
        loop_body rnd n c directed mi mo s =
          Inr (gs_num_edges s - 1 = 0,
               \<lparr> gs_g = g', gs_num_edges = gs_num_edges s - 1,
                 gs_edges_per_vertex =
                   (gs_edges_per_vertex s)[nat u := gs_edges_per_vertex s ! nat u + 1,
                                           nat v := gs_edges_per_vertex s ! nat v + 1],
                 gs_incoming_edges_per_vertex =
                   (if directed
                    then (gs_incoming_edges_per_vertex s)[nat v := gs_incoming_edges_per_vertex s ! nat v + 1]
                    else gs_incoming_edges_per_vertex s),
                 gs_outgoing_edges_per_vertex =
                   (if directed
                    then (gs_outgoing_edges_per_vertex s)[nat u := gs_outgoing_edges_per_vertex s ! nat u + 1]
                    else gs_outgoing_edges_per_vertex s),
                 gs_pos = gs_pos s + 3 \<rparr>))"
proof -
  let ?g = "gs_g s"
  let ?epv = "gs_edges_per_vertex s"
  let ?in = "gs_incoming_edges_per_vertex s"
  let ?out = "gs_outgoing_edges_per_vertex s"
  have ok: "graph_ok ?g" and nv: "m_vertices ?g = n"
    and lens: "length ?epv = nat n" "length ?in = nat n" "length ?out = nat n"
    using wf by (simp_all add: gen_wf_def)
  obtain u where cu: "c_mod (rnd (gs_pos s)) n = Inr u" and ub: "0 \<le> u" "u < n"
    using c_mod_range[of "rnd (gs_pos s)" n] rnd n by auto
  obtain v where cv: "c_mod (rnd (gs_pos s + 1)) n = Inr v" and vb: "0 \<le> v" "v < n"
    using c_mod_range[of "rnd (gs_pos s + 1)" n] rnd n by auto
  obtain r where cr: "c_mod (rnd (gs_pos s + 2)) 100 = Inr r"
    using c_mod_range[of "rnd (gs_pos s + 2)" 100] rnd by auto
  have un: "nat u < nat n" and vn: "nat v < nat n" using ub vb by auto
  have reads: "vec_at ?epv u = Inr (?epv ! nat u)" "vec_at ?epv v = Inr (?epv ! nat v)"
    "vec_at ?in v = Inr (?in ! nat v)" "vec_at ?out u = Inr (?out ! nat u)"
    using ub vb lens by (simp_all add: vec_at_ok)
  have alen: "length (m_adj_matrix ?g) = nat n" "length (m_adj_matrix ?g ! nat u) = nat n"
    using graph_ok_len[OF ok] graph_ok_row[OF ok, of "nat u"] nv un by simp_all
  have ma: "mat_at (get_adj_matrix ?g) u v = Inr (m_adj_matrix ?g ! nat u ! nat v)"
    unfolding get_adj_matrix_def using ub vb alen by (intro mat_at_ok) auto
  let ?s1 = "s\<lparr> gs_pos := gs_pos s + 2 \<rparr>"
  define reject where "reject \<longleftrightarrow> u = v \<or> ?epv ! nat u \<ge> c \<or> ?epv ! nat v \<ge> c \<or>
     (directed \<and> (?in ! nat v \<ge> mi \<or> ?out ! nat u \<ge> mo)) \<or> m_adj_matrix ?g ! nat u ! nat v \<noteq> 0"
  show ?thesis
  proof (cases reject)
    case True
    then have "loop_body rnd n c directed mi mo s = Inr (False, ?s1)"
      unfolding reject_def by (auto simp: loop_body_def cu cv[simplified] reads ma Let_def)
    then show ?thesis by blast
  next
    case False
    then have nr: "u \<noteq> v" "?epv ! nat u < c" "?epv ! nat v < c"
      "\<not> (directed \<and> (?in ! nat v \<ge> mi \<or> ?out ! nat u \<ge> mo))" "m_adj_matrix ?g ! nat u ! nat v = 0"
      unfolding reject_def by auto
    have nne: "nat u \<noteq> nat v" using nr(1) ub vb by auto
    obtain g' where ae: "add_edge ?g u v (r + 1) = Inr g'"
      using add_edge_ok[OF ok, of u v "r + 1"] ub vb nv by auto
    define epv2 where "epv2 = ?epv[nat u := ?epv ! nat u + 1, nat v := ?epv ! nat v + 1]"
    have writes: "vec_set ?epv u (?epv ! nat u + 1) = Inr (?epv[nat u := ?epv ! nat u + 1])"
      "vec_at (?epv[nat u := ?epv ! nat u + 1]) v = Inr (?epv ! nat v)"
      "vec_set (?epv[nat u := ?epv ! nat u + 1]) v (?epv ! nat v + 1) = Inr epv2"
      "vec_set ?in v (?in ! nat v + 1) = Inr (?in[nat v := ?in ! nat v + 1])"
      "vec_set ?out u (?out ! nat u + 1) = Inr (?out[nat u := ?out ! nat u + 1])"
      using ub vb lens nne by (simp_all add: vec_at_ok vec_set_ok epv2_def)
    have body: "loop_body rnd n c directed mi mo s =
       Inr (gs_num_edges s - 1 = 0,
            \<lparr> gs_g = g', gs_num_edges = gs_num_edges s - 1, gs_edges_per_vertex = epv2,
              gs_incoming_edges_per_vertex = (if directed then ?in[nat v := ?in ! nat v + 1] else ?in),
              gs_outgoing_edges_per_vertex = (if directed then ?out[nat u := ?out ! nat u + 1] else ?out),
              gs_pos = gs_pos s + 3 \<rparr>)"
      using nr by (auto simp: loop_body_def cu cv[simplified] cr cr[simplified] reads ma ae writes Let_def)
    have "directed \<longrightarrow> ?in ! nat v < mi \<and> ?out ! nat u < mo" using nr(4) by auto
    with ub vb nr(1,2,3) ae body show ?thesis unfolding epv2_def by blast
  qed
qed

lemma gen_wf_reject: "gen_wf n s \<Longrightarrow> gen_wf n (s\<lparr> gs_pos := k \<rparr>)"
  by (simp add: gen_wf_def)

lemma gen_wf_accept:
  assumes "gen_wf n s" "add_edge (gs_g s) u v w = Inr g'"
  shows "gen_wf n \<lparr> gs_g = g', gs_num_edges = e,
                 gs_edges_per_vertex = (gs_edges_per_vertex s)[i := a, j := b],
                 gs_incoming_edges_per_vertex =
                   (if d then (gs_incoming_edges_per_vertex s)[k := x] else gs_incoming_edges_per_vertex s),
                 gs_outgoing_edges_per_vertex =
                   (if d then (gs_outgoing_edges_per_vertex s)[l := y] else gs_outgoing_edges_per_vertex s),
                 gs_pos = p \<rparr>"
proof -
  have ok: "graph_ok (gs_g s)" using assms(1) by (simp add: gen_wf_def)
  from add_edge_keeps[OF ok assms(2)] assms(1) show ?thesis by (simp add: gen_wf_def)
qed

lemma list_update_le:
  "\<forall>x \<in> set xs. x \<le> (c::int) \<Longrightarrow> a \<le> c \<Longrightarrow> \<forall>x \<in> set (xs[i := a]). x \<le> c"
  by (metis insertE set_update_subset_insert subsetD)

text \<open>The three invariants are kept, and under each of them an edge is still to place.\<close>

lemma gen_inv_step:
  assumes inv: "gen_inv n s" and rnd: "\<forall>k. 0 \<le> rnd k" and n: "1 \<le> n"
  shows "0 < gs_num_edges s \<and>
         (\<exists>s'. loop_body rnd n (n - 1) directed mi mo s = Inr (False, s') \<and> gen_inv n s')"
proof -
  let ?epv = "gs_edges_per_vertex s"
  have wf: "gen_wf n s" and cap: "\<forall>x \<in> set ?epv. x \<le> n - 1"
    and cnt: "n * (n - 1) < 2 * gs_num_edges s + sum_list ?epv"
    using inv by (simp_all add: gen_inv_def)
  have len: "length ?epv = nat n" using wf by (simp add: gen_wf_def)
  have "sum_list ?epv \<le> int (length ?epv) * (n - 1)" by (rule sum_list_le_bound[OF cap])
  then have "sum_list ?epv \<le> n * (n - 1)" using len n by simp
  then have pos: "0 < gs_num_edges s" using cnt by linarith
  from loop_body_cases[OF wf rnd n, of "n - 1" directed mi mo]
  show ?thesis
  proof (elim disjE exE conjE)
    assume "loop_body rnd n (n - 1) directed mi mo s = Inr (False, s\<lparr> gs_pos := gs_pos s + 2 \<rparr>)"
    moreover have "gen_inv n (s\<lparr> gs_pos := gs_pos s + 2 \<rparr>)"
      using inv gen_wf_reject[OF wf] by (simp add: gen_inv_def)
    ultimately show ?thesis using pos by blast
  next
    fix u v w g'
    let ?epv2 = "?epv[nat u := ?epv ! nat u + 1, nat v := ?epv ! nat v + 1]"
    let ?s' = "\<lparr> gs_g = g', gs_num_edges = gs_num_edges s - 1, gs_edges_per_vertex = ?epv2,
                 gs_incoming_edges_per_vertex =
                   (if directed
                    then (gs_incoming_edges_per_vertex s)[nat v := gs_incoming_edges_per_vertex s ! nat v + 1]
                    else gs_incoming_edges_per_vertex s),
                 gs_outgoing_edges_per_vertex =
                   (if directed
                    then (gs_outgoing_edges_per_vertex s)[nat u := gs_outgoing_edges_per_vertex s ! nat u + 1]
                    else gs_outgoing_edges_per_vertex s),
                 gs_pos = gs_pos s + 3 \<rparr>"
    assume uv: "0 \<le> u" "u < n" "0 \<le> v" "v < n" "u \<noteq> v"
      and lt: "?epv ! nat u < n - 1" "?epv ! nat v < n - 1"
      and ae: "add_edge (gs_g s) u v w = Inr g'"
      and body: "loop_body rnd n (n - 1) directed mi mo s = Inr (gs_num_edges s - 1 = 0, ?s')"
    have un: "nat u < length ?epv" and vn: "nat v < length ?epv" and nne: "nat u \<noteq> nat v"
      using uv len by auto
    have wf': "gen_wf n ?s'" by (rule gen_wf_accept[OF wf ae])
    have sum2: "sum_list ?epv2 = sum_list ?epv + 2"
      using un vn nne by (simp add: sum_list_update_int)
    have cap2: "\<forall>x \<in> set ?epv2. x \<le> n - 1"
      using list_update_le[OF list_update_le[OF cap, of "?epv ! nat u + 1" "nat u"],
                           of "?epv ! nat v + 1" "nat v"] lt by simp
    have inv': "gen_inv n ?s'"
      using wf' cap2 cnt sum2 by (simp add: gen_inv_def)
    have "sum_list ?epv2 \<le> int (length ?epv2) * (n - 1)" by (rule sum_list_le_bound[OF cap2])
    then have "sum_list ?epv2 \<le> n * (n - 1)" using len n by simp
    then have "gs_num_edges s - 1 \<noteq> 0" using cnt sum2 by linarith
    with body inv' pos show ?thesis by auto
  qed
qed

lemma gen_inv_in_step:
  assumes inv: "gen_inv_in n mi s" and rnd: "\<forall>k. 0 \<le> rnd k" and n: "1 \<le> n"
  shows "0 < gs_num_edges s \<and>
         (\<exists>s'. loop_body rnd n c True mi mo s = Inr (False, s') \<and> gen_inv_in n mi s')"
proof -
  let ?in = "gs_incoming_edges_per_vertex s"
  have wf: "gen_wf n s" and cap: "\<forall>x \<in> set ?in. x \<le> max 0 mi"
    and cnt: "n * max 0 mi < gs_num_edges s + sum_list ?in"
    using inv by (simp_all add: gen_inv_in_def)
  have len: "length ?in = nat n" using wf by (simp add: gen_wf_def)
  have "sum_list ?in \<le> int (length ?in) * max 0 mi" by (rule sum_list_le_bound[OF cap])
  then have "sum_list ?in \<le> n * max 0 mi" using len n by simp
  then have pos: "0 < gs_num_edges s" using cnt by linarith
  from loop_body_cases[OF wf rnd n, of c True mi mo]
  show ?thesis
  proof (elim disjE exE conjE)
    assume "loop_body rnd n c True mi mo s = Inr (False, s\<lparr> gs_pos := gs_pos s + 2 \<rparr>)"
    moreover have "gen_inv_in n mi (s\<lparr> gs_pos := gs_pos s + 2 \<rparr>)"
      using inv gen_wf_reject[OF wf] by (simp add: gen_inv_in_def)
    ultimately show ?thesis using pos by blast
  next
    fix u v w g'
    let ?in2 = "?in[nat v := ?in ! nat v + 1]"
    let ?s' = "\<lparr> gs_g = g', gs_num_edges = gs_num_edges s - 1,
                 gs_edges_per_vertex =
                   (gs_edges_per_vertex s)[nat u := gs_edges_per_vertex s ! nat u + 1,
                                           nat v := gs_edges_per_vertex s ! nat v + 1],
                 gs_incoming_edges_per_vertex = (if True then ?in2 else ?in),
                 gs_outgoing_edges_per_vertex =
                   (if True
                    then (gs_outgoing_edges_per_vertex s)[nat u := gs_outgoing_edges_per_vertex s ! nat u + 1]
                    else gs_outgoing_edges_per_vertex s),
                 gs_pos = gs_pos s + 3 \<rparr>"
    assume uv: "0 \<le> v" "v < n"
      and lt: "True \<longrightarrow> ?in ! nat v < mi \<and> gs_outgoing_edges_per_vertex s ! nat u < mo"
      and ae: "add_edge (gs_g s) u v w = Inr g'"
      and body: "loop_body rnd n c True mi mo s = Inr (gs_num_edges s - 1 = 0, ?s')"
    have vn: "nat v < length ?in" using uv len by auto
    have wf': "gen_wf n ?s'" by (rule gen_wf_accept[OF wf ae])
    have sum2: "sum_list ?in2 = sum_list ?in + 1"
      using vn by (simp add: sum_list_update_int)
    have "?in ! nat v + 1 \<le> max 0 mi" using lt by (auto simp: max_def)
    from list_update_le[OF cap this] have cap2: "\<forall>x \<in> set ?in2. x \<le> max 0 mi" .
    have inv': "gen_inv_in n mi ?s'"
      using wf' cap2 cnt sum2 by (simp add: gen_inv_in_def)
    have "sum_list ?in2 \<le> int (length ?in2) * max 0 mi" by (rule sum_list_le_bound[OF cap2])
    then have "sum_list ?in2 \<le> n * max 0 mi" using len n by simp
    then have "gs_num_edges s - 1 \<noteq> 0" using cnt sum2 by linarith
    with body inv' pos show ?thesis by auto
  qed
qed

lemma gen_inv_out_step:
  assumes inv: "gen_inv_out n mo s" and rnd: "\<forall>k. 0 \<le> rnd k" and n: "1 \<le> n"
  shows "0 < gs_num_edges s \<and>
         (\<exists>s'. loop_body rnd n c True mi mo s = Inr (False, s') \<and> gen_inv_out n mo s')"
proof -
  let ?out = "gs_outgoing_edges_per_vertex s"
  have wf: "gen_wf n s" and cap: "\<forall>x \<in> set ?out. x \<le> max 0 mo"
    and cnt: "n * max 0 mo < gs_num_edges s + sum_list ?out"
    using inv by (simp_all add: gen_inv_out_def)
  have len: "length ?out = nat n" using wf by (simp add: gen_wf_def)
  have "sum_list ?out \<le> int (length ?out) * max 0 mo" by (rule sum_list_le_bound[OF cap])
  then have "sum_list ?out \<le> n * max 0 mo" using len n by simp
  then have pos: "0 < gs_num_edges s" using cnt by linarith
  from loop_body_cases[OF wf rnd n, of c True mi mo]
  show ?thesis
  proof (elim disjE exE conjE)
    assume "loop_body rnd n c True mi mo s = Inr (False, s\<lparr> gs_pos := gs_pos s + 2 \<rparr>)"
    moreover have "gen_inv_out n mo (s\<lparr> gs_pos := gs_pos s + 2 \<rparr>)"
      using inv gen_wf_reject[OF wf] by (simp add: gen_inv_out_def)
    ultimately show ?thesis using pos by blast
  next
    fix u v w g'
    let ?out2 = "?out[nat u := ?out ! nat u + 1]"
    let ?s' = "\<lparr> gs_g = g', gs_num_edges = gs_num_edges s - 1,
                 gs_edges_per_vertex =
                   (gs_edges_per_vertex s)[nat u := gs_edges_per_vertex s ! nat u + 1,
                                           nat v := gs_edges_per_vertex s ! nat v + 1],
                 gs_incoming_edges_per_vertex =
                   (if True
                    then (gs_incoming_edges_per_vertex s)[nat v := gs_incoming_edges_per_vertex s ! nat v + 1]
                    else gs_incoming_edges_per_vertex s),
                 gs_outgoing_edges_per_vertex = (if True then ?out2 else ?out),
                 gs_pos = gs_pos s + 3 \<rparr>"
    assume uv: "0 \<le> u" "u < n"
      and lt: "True \<longrightarrow> gs_incoming_edges_per_vertex s ! nat v < mi \<and> ?out ! nat u < mo"
      and ae: "add_edge (gs_g s) u v w = Inr g'"
      and body: "loop_body rnd n c True mi mo s = Inr (gs_num_edges s - 1 = 0, ?s')"
    have un: "nat u < length ?out" using uv len by auto
    have wf': "gen_wf n ?s'" by (rule gen_wf_accept[OF wf ae])
    have sum2: "sum_list ?out2 = sum_list ?out + 1"
      using un by (simp add: sum_list_update_int)
    have "?out ! nat u + 1 \<le> max 0 mo" using lt by (auto simp: max_def)
    from list_update_le[OF cap this] have cap2: "\<forall>x \<in> set ?out2. x \<le> max 0 mo" .
    have inv': "gen_inv_out n mo ?s'"
      using wf' cap2 cnt sum2 by (simp add: gen_inv_out_def)
    have "sum_list ?out2 \<le> int (length ?out2) * max 0 mo" by (rule sum_list_le_bound[OF cap2])
    then have "sum_list ?out2 \<le> n * max 0 mo" using len n by simp
    then have "gs_num_edges s - 1 \<noteq> 0" using cnt sum2 by linarith
    with body inv' pos show ?thesis by auto
  qed
qed

lemma gen_loop_None:
  assumes step: "\<And>s. I s \<Longrightarrow> 0 < gs_num_edges s \<and>
                  (\<exists>s'. loop_body rnd n c directed mi mo s = Inr (False, s') \<and> I s')"
  shows "I s \<Longrightarrow> gen_loop rnd n c directed mi mo s = None"
proof -
  have "\<not> I s" if h: "gen_loop rnd n c directed mi mo s = Some y" for s y
  proof -
    have "rnd = rnd \<and> n = n \<and> c = c \<and> directed = directed \<and> mi = mi \<and> mo = mo \<longrightarrow> \<not> I s"
    proof (rule gen_loop.raw_induct[where P = "\<lambda>rnd' n' c' d' mi' mo' s y.
              rnd' = rnd \<and> n' = n \<and> c' = c \<and> d' = directed \<and> mi' = mi \<and> mo' = mo
              \<longrightarrow> \<not> I s", OF _ h], intro impI notI, elim conjE)
      fix gen_loop' :: "(nat \<Rightarrow> int) \<Rightarrow> int \<Rightarrow> int \<Rightarrow> bool \<Rightarrow> int \<Rightarrow> int \<Rightarrow> gen_state \<Rightarrow> (error + graph) option"
      fix rnd' n' c' d' mi' mo' s y
      assume IH: "\<And>rnd'' n' c' d' mi' mo' s y. gen_loop' rnd'' n' c' d' mi' mo' s = Some y \<Longrightarrow>
                  rnd'' = rnd \<and> n' = n \<and> c' = c \<and> d' = directed \<and> mi' = mi \<and> mo' = mo
                  \<longrightarrow> \<not> I s"
      assume eq: "(if 0 < gs_num_edges s
        then case loop_body rnd' n' c' d' mi' mo' s of
             Inl e \<Rightarrow> Some (Inl e)
             | Inr (brk, s') \<Rightarrow>
                 if brk then Some (Inr (gs_g s'))
                 else gen_loop' rnd' n' c' d' mi' mo' s'
        else Some (Inr (gs_g s))) = Some y"
      assume a: "rnd' = rnd" "n' = n" "c' = c" "d' = directed" "mi' = mi" "mo' = mo"
        and inv: "I s"
      from step[OF inv]
      obtain s' where pos: "0 < gs_num_edges s"
        and b: "loop_body rnd n c directed mi mo s = Inr (False, s')" and inv': "I s'"
        by blast
      have "gen_loop' rnd n c directed mi mo s' = Some y"
        using eq a b pos by simp
      from IH[OF this] inv' show False by simp
    qed
    then show ?thesis by simp
  qed
  then show "I s \<Longrightarrow> gen_loop rnd n c directed mi mo s = None"
    by (cases "gen_loop rnd n c directed mi mo s") auto
qed

lemma rand_of_nonneg: "\<forall>x \<in> set xs. 0 \<le> x \<Longrightarrow> \<forall>k. 0 \<le> rand_of xs k"
  by (simp add: rand_of_def)

lemma rand_of_range:
  "\<forall>x \<in> set xs. 0 \<le> x \<and> x \<le> INT_MAX \<Longrightarrow> \<forall>k. 0 \<le> rand_of xs k \<and> rand_of xs k \<le> INT_MAX"
  by (simp add: rand_of_def INT_MAX_def)

text \<open>
  The head of \<open>generate_graph\<close>: with \<open>n\<close> the number of vertices and \<open>e\<close> the number of edges
  that the first two values of \<open>rand()\<close> select, and no overflow on the way (the product
  \<open>n (n - 1)\<close> fits \<open>int\<close> up to \<open>n = 46341\<close>), the call is the loop from the empty graph.
\<close>

lemma generate_graph_head:
  assumes rnd: "\<forall>k. 0 \<le> rnd k"
    and dv: "INT_MIN \<le> max_vertices - min_vertices" "max_vertices - min_vertices < INT_MAX"
      "max_vertices - min_vertices \<noteq> - 1"
    and n: "n = rnd 0 smod (max_vertices - min_vertices + 1) + min_vertices" "0 \<le> n" "n \<le> 46341"
    and de: "INT_MIN \<le> max_edges - min_edges" "max_edges - min_edges < INT_MAX"
      "max_edges - min_edges \<noteq> - 1"
    and e: "e = rnd 1 smod (max_edges - min_edges + 1) + min_edges" "INT_MIN \<le> e" "e \<le> INT_MAX"
  shows "generate_graph min_vertices max_vertices min_edges max_edges max_edges_per_vertex directed
           max_incoming_edges max_outgoing_edges rnd =
         gen_loop rnd n (n - 1) directed max_incoming_edges max_outgoing_edges
           \<lparr> gs_g = \<lparr> m_vertices = n, m_directed = False,
                      m_adj_matrix = replicate (nat n) (replicate (nat n) 0),
                      m_adj_list = replicate (nat n) [],
                      m_edges = [], m_inc_matrix = [] \<rparr>,
             gs_num_edges = e,
             gs_edges_per_vertex = replicate (nat n) 0,
             gs_incoming_edges_per_vertex = replicate (nat n) 0,
             gs_outgoing_edges_per_vertex = replicate (nat n) 0,
             gs_pos = 2 \<rparr>"
proof -
  have r: "0 \<le> rnd 0" "0 \<le> rnd 1" using rnd by simp_all
  have d1: "c_int (max_vertices - min_vertices) = Inr (max_vertices - min_vertices)"
    "c_int (max_vertices - min_vertices + 1) = Inr (max_vertices - min_vertices + 1)"
    using dv by (simp_all add: c_int_def INT_MIN_def INT_MAX_def)
  have d2: "c_int (max_edges - min_edges) = Inr (max_edges - min_edges)"
    "c_int (max_edges - min_edges + 1) = Inr (max_edges - min_edges + 1)"
    using de by (simp_all add: c_int_def INT_MIN_def INT_MAX_def)
  have m1: "c_mod (rnd 0) (max_vertices - min_vertices + 1) = Inr (rnd 0 smod (max_vertices - min_vertices + 1))"
    using r(1) dv(3) by (intro c_mod_nonneg) auto
  have m2: "c_mod (rnd 1) (max_edges - min_edges + 1) = Inr (rnd 1 smod (max_edges - min_edges + 1))"
    using r(2) de(3) by (intro c_mod_nonneg) auto
  have cn: "c_int (rnd 0 smod (max_vertices - min_vertices + 1) + min_vertices) = Inr n"
    using n by (simp add: c_int_def INT_MIN_def INT_MAX_def)
  have ce: "c_int (rnd 1 smod (max_edges - min_edges + 1) + min_edges) = Inr e"
    using e by (simp add: c_int_def)
  have cm: "c_int (n - 1) = Inr (n - 1)"
    using n(2,3) by (simp add: c_int_def INT_MIN_def INT_MAX_def)
  have "n * (n - 1) \<le> 46341 * 46340"
  proof (cases "n = 0")
    case True
    then show ?thesis by simp
  next
    case False
    then have "0 \<le> n - 1" using n(2) by simp
    then show ?thesis using n(2,3) by (intro mult_mono) simp_all
  qed
  moreover have "- 1 \<le> n * (n - 1)"
  proof (cases "n = 0")
    case True
    then show ?thesis by simp
  next
    case False
    then have "0 \<le> n * (n - 1)" using n(2) by simp
    then show ?thesis by simp
  qed
  ultimately have cp: "c_int (n * (n - 1)) = Inr (n * (n - 1))"
    by (simp add: c_int_def INT_MIN_def INT_MAX_def)
  have g: "Graph n False = Inr \<lparr> m_vertices = n, m_directed = False,
                      m_adj_matrix = replicate (nat n) (replicate (nat n) 0),
                      m_adj_list = replicate (nat n) [],
                      m_edges = [], m_inc_matrix = [] \<rparr>"
    using n(2) by (simp add: Graph_def)
  show ?thesis
    unfolding generate_graph_def by (simp add: bind_r_def d1 d2 m1 m2 cn ce cm cp g del: One_nat_def)
qed

text \<open>The loop starts in a state of the right shapes, with all counters 0.\<close>

lemma gen_wf_start:
  assumes "0 \<le> n"
  shows "gen_wf n \<lparr> gs_g = \<lparr> m_vertices = n, m_directed = False,
                      m_adj_matrix = replicate (nat n) (replicate (nat n) 0),
                      m_adj_list = replicate (nat n) [],
                      m_edges = [], m_inc_matrix = [] \<rparr>,
             gs_num_edges = e,
             gs_edges_per_vertex = replicate (nat n) 0,
             gs_incoming_edges_per_vertex = replicate (nat n) 0,
             gs_outgoing_edges_per_vertex = replicate (nat n) 0,
             gs_pos = 2 \<rparr>"
proof -
  have "Graph n False = Inr \<lparr> m_vertices = n, m_directed = False,
                      m_adj_matrix = replicate (nat n) (replicate (nat n) 0),
                      m_adj_list = replicate (nat n) [],
                      m_edges = [], m_inc_matrix = [] \<rparr>"
    using assms by (simp add: Graph_def)
  from Graph_ok[OF this] show ?thesis by (simp add: gen_wf_def)
qed

lemma sum_list_replicate_0: "sum_list (replicate k (0::int)) = 0"
  by (induction k) simp_all

text \<open>
  The loop never ends when more edges are asked for than \<open>n\<close> vertices admit, or, with
  \<open>directed\<close> set, than the cap on the in-degrees or the cap on the out-degrees admits.
\<close>

lemma generate_graph_diverges:
  assumes rnd: "\<forall>k. 0 \<le> rnd k"
    and dv: "INT_MIN \<le> max_vertices - min_vertices" "max_vertices - min_vertices < INT_MAX"
      "max_vertices - min_vertices \<noteq> - 1"
    and n: "n = rnd 0 smod (max_vertices - min_vertices + 1) + min_vertices" "1 \<le> n" "n \<le> 46341"
    and de: "INT_MIN \<le> max_edges - min_edges" "max_edges - min_edges < INT_MAX"
      "max_edges - min_edges \<noteq> - 1"
    and e: "e = rnd 1 smod (max_edges - min_edges + 1) + min_edges" "e \<le> INT_MAX"
    and inf: "n * (n - 1) < 2 * e \<or>
              (directed \<and> (n * max 0 max_incoming_edges < e \<or> n * max 0 max_outgoing_edges < e))"
  shows "generate_graph min_vertices max_vertices min_edges max_edges max_edges_per_vertex directed
           max_incoming_edges max_outgoing_edges rnd = None"
proof -
  let ?s = "\<lparr> gs_g = \<lparr> m_vertices = n, m_directed = False,
                      m_adj_matrix = replicate (nat n) (replicate (nat n) 0),
                      m_adj_list = replicate (nat n) [],
                      m_edges = [], m_inc_matrix = [] \<rparr>,
             gs_num_edges = e,
             gs_edges_per_vertex = replicate (nat n) 0,
             gs_incoming_edges_per_vertex = replicate (nat n) 0,
             gs_outgoing_edges_per_vertex = replicate (nat n) 0,
             gs_pos = 2 \<rparr>"
  have n0: "0 \<le> n" using n(2) by simp
  have "0 \<le> n * (n - 1)" using n(2) by simp
  moreover have "0 \<le> n * max 0 max_incoming_edges" "0 \<le> n * max 0 max_outgoing_edges"
    using n0 by simp_all
  ultimately have "0 < e" using inf by linarith
  then have e0: "INT_MIN \<le> e" by (simp add: INT_MIN_def)
  have head: "generate_graph min_vertices max_vertices min_edges max_edges max_edges_per_vertex directed
           max_incoming_edges max_outgoing_edges rnd =
         gen_loop rnd n (n - 1) directed max_incoming_edges max_outgoing_edges ?s"
    by (rule generate_graph_head[OF rnd dv n(1) n0 n(3) de e(1) e0 e(2)])
  have wf: "gen_wf n ?s" by (rule gen_wf_start[OF n0])
  from inf have "gen_loop rnd n (n - 1) directed max_incoming_edges max_outgoing_edges ?s = None"
  proof (elim disjE conjE)
    assume "n * (n - 1) < 2 * e"
    then have "gen_inv n ?s" using wf n(2) by (simp add: gen_inv_def sum_list_replicate_0)
    then show ?thesis
      by (rule gen_loop_None[where I = "gen_inv n", rotated]) (rule gen_inv_step[OF _ rnd n(2)])
  next
    assume d: directed and "n * max 0 max_incoming_edges < e"
    then have "gen_inv_in n max_incoming_edges ?s"
      using wf by (simp add: gen_inv_in_def sum_list_replicate_0)
    then have "gen_loop rnd n (n - 1) True max_incoming_edges max_outgoing_edges ?s = None"
      by (rule gen_loop_None[where I = "gen_inv_in n max_incoming_edges", rotated])
         (rule gen_inv_in_step[OF _ rnd n(2)])
    with d show ?thesis by simp
  next
    assume d: directed and "n * max 0 max_outgoing_edges < e"
    then have "gen_inv_out n max_outgoing_edges ?s"
      using wf by (simp add: gen_inv_out_def sum_list_replicate_0)
    then have "gen_loop rnd n (n - 1) True max_incoming_edges max_outgoing_edges ?s = None"
      by (rule gen_loop_None[where I = "gen_inv_out n max_outgoing_edges", rotated])
         (rule gen_inv_out_step[OF _ rnd n(2)])
    with d show ?thesis by simp
  qed
  with head show ?thesis by simp
qed

text \<open>With no vertex and an edge to place, the first \<open>rand() % num_vertices\<close> divides by 0.\<close>

lemma generate_graph_no_vertex:
  assumes rnd: "\<forall>k. 0 \<le> rnd k"
    and dv: "INT_MIN \<le> max_vertices - min_vertices" "max_vertices - min_vertices < INT_MAX"
      "max_vertices - min_vertices \<noteq> - 1"
    and n: "rnd 0 smod (max_vertices - min_vertices + 1) + min_vertices = 0"
    and de: "INT_MIN \<le> max_edges - min_edges" "max_edges - min_edges < INT_MAX"
      "max_edges - min_edges \<noteq> - 1"
    and e: "e = rnd 1 smod (max_edges - min_edges + 1) + min_edges" "1 \<le> e" "e \<le> INT_MAX"
  shows "generate_graph min_vertices max_vertices min_edges max_edges max_edges_per_vertex directed
           max_incoming_edges max_outgoing_edges rnd = Some (Inl UndefinedBehaviour)"
proof -
  have e0: "INT_MIN \<le> e" using e(2) by (simp add: INT_MIN_def)
  have "generate_graph min_vertices max_vertices min_edges max_edges max_edges_per_vertex directed
           max_incoming_edges max_outgoing_edges rnd =
         gen_loop rnd 0 (0 - 1) directed max_incoming_edges max_outgoing_edges
           \<lparr> gs_g = \<lparr> m_vertices = 0, m_directed = False,
                      m_adj_matrix = replicate (nat 0) (replicate (nat 0) 0),
                      m_adj_list = replicate (nat 0) [],
                      m_edges = [], m_inc_matrix = [] \<rparr>,
             gs_num_edges = e,
             gs_edges_per_vertex = replicate (nat 0) 0,
             gs_incoming_edges_per_vertex = replicate (nat 0) 0,
             gs_outgoing_edges_per_vertex = replicate (nat 0) 0,
             gs_pos = 2 \<rparr>"
    by (rule generate_graph_head[OF rnd dv n[symmetric] _ _ de e(1) e0 e(3)]) simp_all
  also have "\<dots> = Some (Inl UndefinedBehaviour)"
    using e(2) by (simp add: gen_loop.simps loop_body_def c_mod_def bind_r_def)
  finally show ?thesis .
qed

text \<open>
  C8, as stated, at \<open>generate_graph(2, 2, 2, 2, 10, false, 1, 1)\<close>: two vertices admit one edge,
  two are asked for; the call does not fail with a condition, it never returns.
\<close>

theorem generate_graph_infeasible_counterexample:
  "generate_graph 2 2 2 2 10 False 1 1 (rand_of [0, 0, 0, 1, 41]) = None"
proof -
  have "\<forall>k. 0 \<le> rand_of [0, 0, 0, 1, 41] k" by (rule rand_of_nonneg) simp
  then show ?thesis
    by (rule generate_graph_diverges[where n = 2 and e = 2])
       (simp_all add: INT_MIN_def INT_MAX_def rand_of_def smod_int_alt_def)
qed

text \<open>
  C8, amended: \<open>generate_graph\<close> has no feasibility check, no iteration cap and no
  \<open>InfeasibleConstraints\<close> condition.  Let the arguments be \<open>int\<close> values, the values of
  \<open>rand()\<close> lie between 0 and \<open>INT_MAX\<close>, the expressions \<open>max_vertices - min_vertices + 1\<close>
  and \<open>max_edges - min_edges + 1\<close> not overflow and not be 0, and let
  \<open>n = rand() % (max_vertices - min_vertices + 1) + min_vertices\<close> be the number of vertices and
  \<open>e = rand() % (max_edges - min_edges + 1) + min_edges\<close> the number of edges that the call selects.
  If \<open>1 \<le> n \<le> 46341\<close> (so that \<open>n (n - 1)\<close> does not overflow) and \<open>e\<close> exceeds
  \<open>n (n - 1) / 2\<close>, or \<open>directed\<close> is set and \<open>e\<close> exceeds \<open>n max(0, max_incoming_edges)\<close> or
  \<open>n max(0, max_outgoing_edges)\<close>, the rejection loop never ends: the call returns nothing and
  raises no condition.  If \<open>n = 0\<close> and \<open>e \<ge> 1\<close>, the call does not loop: its first
  \<open>rand() % num_vertices\<close> divides by 0, which is undefined behaviour.
\<close>

theorem generate_graph_infeasible_never_returns:
  assumes "\<forall>k. 0 \<le> rnd k \<and> rnd k \<le> INT_MAX"
    and "\<forall>x \<in> set [min_vertices, max_vertices, min_edges, max_edges, max_edges_per_vertex,
                    max_incoming_edges, max_outgoing_edges]. INT_MIN \<le> x \<and> x \<le> INT_MAX"
    and "INT_MIN \<le> max_vertices - min_vertices" and "max_vertices - min_vertices < INT_MAX"
    and "max_vertices - min_vertices \<noteq> - 1"
    and "n = rnd 0 smod (max_vertices - min_vertices + 1) + min_vertices"
    and "INT_MIN \<le> max_edges - min_edges" and "max_edges - min_edges < INT_MAX"
    and "max_edges - min_edges \<noteq> - 1"
    and "e = rnd 1 smod (max_edges - min_edges + 1) + min_edges" and "e \<le> INT_MAX"
  shows "(1 \<le> n \<and> n \<le> 46341 \<and>
          (n * (n - 1) < 2 * e \<or>
           (directed \<and> (n * max 0 max_incoming_edges < e \<or> n * max 0 max_outgoing_edges < e))) \<longrightarrow>
          generate_graph min_vertices max_vertices min_edges max_edges max_edges_per_vertex directed
            max_incoming_edges max_outgoing_edges rnd = None) \<and>
         (n = 0 \<and> 1 \<le> e \<longrightarrow>
          generate_graph min_vertices max_vertices min_edges max_edges max_edges_per_vertex directed
            max_incoming_edges max_outgoing_edges rnd = Some (Inl UndefinedBehaviour))"
proof (intro conjI impI)
  have rnd: "\<forall>k. 0 \<le> rnd k" using assms(1) by simp
  {
    assume "1 \<le> n \<and> n \<le> 46341 \<and>
          (n * (n - 1) < 2 * e \<or>
           (directed \<and> (n * max 0 max_incoming_edges < e \<or> n * max 0 max_outgoing_edges < e)))"
    then show "generate_graph min_vertices max_vertices min_edges max_edges max_edges_per_vertex directed
            max_incoming_edges max_outgoing_edges rnd = None"
      using generate_graph_diverges[OF rnd assms(3,4,5,6) _ _ assms(7,8,9,10,11)] by blast
  }
  {
    assume "n = 0 \<and> 1 \<le> e"
    then show "generate_graph min_vertices max_vertices min_edges max_edges max_edges_per_vertex directed
            max_incoming_edges max_outgoing_edges rnd = Some (Inl UndefinedBehaviour)"
      using generate_graph_no_vertex[OF rnd assms(3,4,5) _ assms(7,8,9,10) _ assms(11)] assms(6)
      by simp
  }
qed

text \<open>
  The amended C8 with the \<open>rand()\<close> values 8, 5, \<open>\<dots>\<close>: 4 edges on 3 vertices; on the range of 2 to
  4 vertices and 3 to 5 edges, where 4 vertices and 5 edges are selected, with the in-degree
  cap 1, the out-degree cap 1 and the in-degree cap -1; 1 edge on no vertex.
\<close>

theorem generate_graph_infeasible_never_returns_witness:
  "(\<forall>k. 0 \<le> rand_of [8, 5, 1, 2, 5] k \<and> rand_of [8, 5, 1, 2, 5] k \<le> INT_MAX) \<and>
   rand_of [8, 5, 1, 2, 5] 0 smod (3 - 3 + 1) + 3 = 3 \<and>
   rand_of [8, 5, 1, 2, 5] 1 smod (4 - 4 + 1) + 4 = 4 \<and>
   (3::int) * (3 - 1) < 2 * 4 \<and>
   generate_graph 3 3 4 4 2 False 2 2 (rand_of [8, 5, 1, 2, 5]) = None \<and>
   rand_of [8, 5, 1, 2, 5] 0 smod (4 - 2 + 1) + 2 = 4 \<and>
   rand_of [8, 5, 1, 2, 5] 1 smod (5 - 3 + 1) + 3 = 5 \<and>
   (2::int) * 5 \<le> 4 * (4 - 1) \<and> (4::int) * max 0 1 < 5 \<and>
   generate_graph 2 4 3 5 2 True 1 3 (rand_of [8, 5, 1, 2, 5]) = None \<and>
   generate_graph 2 4 3 5 2 True 3 1 (rand_of [8, 5, 1, 2, 5]) = None \<and>
   (4::int) * max 0 (- 1) < 5 \<and>
   generate_graph 2 4 3 5 2 True (- 1) 3 (rand_of [8, 5, 1, 2, 5]) = None \<and>
   rand_of [8, 5, 1, 2, 5] 0 smod (0 - 0 + 1) + 0 = 0 \<and>
   rand_of [8, 5, 1, 2, 5] 1 smod (1 - 1 + 1) + 1 = 1 \<and>
   generate_graph 0 0 1 1 2 False 1 1 (rand_of [8, 5, 1, 2, 5]) = Some (Inl UndefinedBehaviour)"
proof -
  have r: "\<forall>k. 0 \<le> rand_of [8, 5, 1, 2, 5] k \<and> rand_of [8, 5, 1, 2, 5] k \<le> INT_MAX"
    by (rule rand_of_range) (simp add: INT_MAX_def)
  have v: "rand_of [8, 5, 1, 2, 5] 0 = 8" "rand_of [8, 5, 1, 2, 5] 1 = 5"
    "rand_of [8, 5, 1, 2, 5] (Suc 0) = 5"
    by (simp_all add: rand_of_def)
  have a: "generate_graph 3 3 4 4 2 False 2 2 (rand_of [8, 5, 1, 2, 5]) = None"
    using generate_graph_infeasible_never_returns[OF r, of 3 3 4 4 2 2 2 3 4 False]
    by (simp add: v INT_MIN_def INT_MAX_def smod_int_alt_def)
  have b: "generate_graph 2 4 3 5 2 True 1 3 (rand_of [8, 5, 1, 2, 5]) = None"
    using generate_graph_infeasible_never_returns[OF r, of 2 4 3 5 2 1 3 4 5 True]
    by (simp add: v INT_MIN_def INT_MAX_def smod_int_alt_def)
  have c: "generate_graph 2 4 3 5 2 True 3 1 (rand_of [8, 5, 1, 2, 5]) = None"
    using generate_graph_infeasible_never_returns[OF r, of 2 4 3 5 2 3 1 4 5 True]
    by (simp add: v INT_MIN_def INT_MAX_def smod_int_alt_def)
  have d: "generate_graph 2 4 3 5 2 True (- 1) 3 (rand_of [8, 5, 1, 2, 5]) = None"
    using generate_graph_infeasible_never_returns[OF r, of 2 4 3 5 2 "- 1" 3 4 5 True]
    by (simp add: v INT_MIN_def INT_MAX_def smod_int_alt_def)
  have e: "generate_graph 0 0 1 1 2 False 1 1 (rand_of [8, 5, 1, 2, 5]) = Some (Inl UndefinedBehaviour)"
    using generate_graph_infeasible_never_returns[OF r, of 0 0 1 1 2 1 1 0 1 False]
    by (simp add: v INT_MIN_def INT_MAX_def smod_int_alt_def)
  show ?thesis
    using r a b c d e by (simp add: v smod_int_alt_def)
qed


section \<open>Correctness of the path finders\<close>

lemma connected_square:
  "square n adj \<Longrightarrow> connected adj x y \<longleftrightarrow> in_range n x \<and> in_range n y \<and> adj ! nat x ! nat y \<noteq> 0"
  unfolding connected_def mat_at_def vec_at_def square_def in_range_def
  by (auto simp: bind_r_def)

lemma mat_at_square:
  "square n adj \<Longrightarrow> in_range n x \<Longrightarrow> in_range n y \<Longrightarrow> mat_at adj x y = Inr (adj ! nat x ! nat y)"
  unfolding mat_at_def vec_at_def square_def in_range_def
  by (auto simp: bind_r_def)

lemma walk_append_one:
  "p \<noteq> [] \<Longrightarrow> walk adj p \<Longrightarrow> connected adj (last p) x \<Longrightarrow> walk adj (p @ [x])"
proof (induction adj p rule: walk.induct)
  case (3 adj x y p)
  then show ?case by auto
qed auto

text \<open>Following the parent links from a marked vertex.\<close>

lemma path_loop_tree:
  assumes t: "tree_inv adj n s d vis par"
  shows "in_range n v \<Longrightarrow> vis ! nat v \<noteq> 0 \<Longrightarrow>
         \<exists>p. path_loop par v acc = Some (Inr (acc @ rev p)) \<and> is_path adj s v p \<and> length p = Suc (d v)"
proof (induction "d v" arbitrary: v acc)
  case 0
  have vs: "v = s"
  proof (rule ccontr)
    assume "v \<noteq> s"
    with t 0 obtain p where "d v = Suc (d p)" unfolding tree_inv_def by blast
    with 0 show False by simp
  qed
  have ps: "par ! nat s = - 1" and r: "in_range n s" and l: "length par = n"
    using t by (simp_all add: tree_inv_def)
  have "vec_at par s = Inr (- 1)"
    using ps r l by (simp add: vec_at_def in_range_def)
  moreover have "s \<noteq> - 1" using r by (simp add: in_range_def)
  ultimately have "path_loop par s acc = Some (Inr (acc @ [s]))"
    by (simp add: path_loop.simps[of par s] path_loop.simps[of par "- 1"])
  then show ?case using vs 0 by (auto simp: is_path_def intro!: exI[of _ "[s]"])
next
  case (Suc k)
  have "v \<noteq> s" using Suc.hyps(2) t by (auto simp: tree_inv_def)
  with t Suc.prems obtain p where p: "in_range n p" "par ! nat v = p" "vis ! nat p \<noteq> 0"
    "connected adj p v" "d v = Suc (d p)"
    unfolding tree_inv_def by blast
  have k: "k = d p" using p(5) Suc.hyps(2) by simp
  from Suc.hyps(1)[OF k p(1) p(3), of "acc @ [v]"] obtain pp where
    pp: "path_loop par p (acc @ [v]) = Some (Inr ((acc @ [v]) @ rev pp))" "is_path adj s p pp"
      "length pp = Suc (d p)" by blast
  have l: "length par = n" using t by (simp add: tree_inv_def)
  have "vec_at par v = Inr p"
    using p(2) Suc.prems(1) l by (simp add: vec_at_def in_range_def)
  moreover have "v \<noteq> - 1" using Suc.prems(1) by (simp add: in_range_def)
  ultimately have "path_loop par v acc = Some (Inr (acc @ rev (pp @ [v])))"
    using pp(1) by (simp add: path_loop.simps[of par v])
  moreover have "is_path adj s v (pp @ [v])"
    using pp(2) p(4) by (auto simp: is_path_def walk_append_one)
  moreover have "length (pp @ [v]) = Suc (d v)" using pp(3) p(5) by simp
  ultimately show ?case by blast
qed

text \<open>A walk that starts at a marked vertex stays among the marked ones, if these are closed.\<close>

lemma walk_closed:
  assumes sq: "square n adj"
    and cl: "\<forall>w. in_range n w \<and> vis ! nat w \<noteq> 0 \<longrightarrow> closed adj n vis w"
  shows "walk adj p \<Longrightarrow> p \<noteq> [] \<Longrightarrow> in_range n (hd p) \<Longrightarrow> vis ! nat (hd p) \<noteq> 0 \<Longrightarrow>
         in_range n (last p) \<and> vis ! nat (last p) \<noteq> 0"
proof (induction p)
  case Nil
  then show ?case by simp
next
  case (Cons x r)
  show ?case
  proof (cases r)
    case Nil
    with Cons.prems show ?thesis by simp
  next
    case (Cons y r')
    with Cons.prems have c: "connected adj x y" and w: "walk adj r" by simp_all
    have x: "in_range n x" "vis ! nat x \<noteq> 0" using Cons.prems by simp_all
    have y: "in_range n y" using c connected_square[OF sq] by blast
    have "vis ! nat y \<noteq> 0" using cl x y c unfolding closed_def by blast
    with Cons.IH[OF w] y Cons show ?thesis by simp
  qed
qed

lemma walk_level_closed:
  assumes sq: "square n adj"
    and cl: "\<forall>w. in_range n w \<and> vis ! nat w \<noteq> 0 \<longrightarrow> level_closed adj n d vis w"
  shows "walk adj p \<Longrightarrow> p \<noteq> [] \<Longrightarrow> in_range n (hd p) \<Longrightarrow> vis ! nat (hd p) \<noteq> 0 \<Longrightarrow>
         d (last p) + 1 \<le> d (hd p) + length p"
proof (induction p)
  case Nil
  then show ?case by simp
next
  case (Cons x r)
  show ?case
  proof (cases r)
    case Nil
    with Cons.prems show ?thesis by simp
  next
    case (Cons y r')
    with Cons.prems have c: "connected adj x y" and w: "walk adj r" by simp_all
    have x: "in_range n x" "vis ! nat x \<noteq> 0" using Cons.prems by simp_all
    have y: "in_range n y" using c connected_square[OF sq] by blast
    have "vis ! nat y \<noteq> 0 \<and> d y \<le> d x + 1" using cl x y c unfolding level_closed_def by blast
    with Cons.IH[OF w] y Cons show ?thesis by simp
  qed
qed

lemma level_closed_closed: "level_closed adj n d vis w \<Longrightarrow> closed adj n vis w"
  by (simp add: level_closed_def closed_def)

lemma in_range_nat_eq: "in_range n x \<Longrightarrow> nat x = j \<longleftrightarrow> x = int j"
  by (auto simp: in_range_def)

lemma in_range_int: "in_range n (int j) \<longleftrightarrow> j < n"
  by (simp add: in_range_def)

text \<open>Marking an unmarked neighbour \<open>j\<close> of a marked vertex \<open>u\<close> keeps the parent tree.\<close>

lemma tree_inv_mark:
  assumes t: "tree_inv adj n s d vis par"
    and u: "in_range n u" "vis ! nat u \<noteq> 0"
    and j: "j < n" "vis ! j = 0" "connected adj u (int j)"
  shows "tree_inv adj n s (d(int j := Suc (d u))) (vis[j := 1]) (par[j := u])"
proof -
  let ?d = "d(int j := Suc (d u))"
  let ?vis = "vis[j := 1]"
  let ?par = "par[j := u]"
  have len: "length vis = n" "length par = n" and s: "in_range n s" "vis ! nat s \<noteq> 0"
    "par ! nat s = - 1" "d s = 0"
    using t by (simp_all add: tree_inv_def)
  have old: "\<And>x. in_range n x \<Longrightarrow> vis ! nat x \<noteq> 0 \<Longrightarrow> x \<noteq> int j \<and> nat x \<noteq> j"
    using j(2) by (auto simp: in_range_def)
  have vis': "\<And>x. in_range n x \<Longrightarrow> ?vis ! nat x \<noteq> 0 \<longleftrightarrow> (x = int j \<or> vis ! nat x \<noteq> 0)"
    using len j(1) by (auto simp: nth_list_update in_range_def)
  have sj: "s \<noteq> int j" "nat s \<noteq> j" using old[OF s(1,2)] by simp_all
  have uj: "u \<noteq> int j" "nat u \<noteq> j" using old[OF u] by simp_all
  have step: "\<exists>p. in_range n p \<and> ?par ! nat v = p \<and> ?vis ! nat p \<noteq> 0 \<and> connected adj p v \<and> ?d v = Suc (?d p)"
    if v: "in_range n v" "?vis ! nat v \<noteq> 0" "v \<noteq> s" for v
  proof (cases "v = int j")
    case True
    have "?par ! nat v = u" using True len j(1) by simp
    moreover have "?vis ! nat u \<noteq> 0" using vis'[OF u(1)] u(2) by simp
    moreover have "?d v = Suc (?d u)" using True uj by simp
    ultimately show ?thesis using u(1) j(3) True by blast
  next
    case False
    then have vv: "vis ! nat v \<noteq> 0" using vis'[OF v(1)] v(2) by simp
    with t v obtain p where p: "in_range n p" "par ! nat v = p" "vis ! nat p \<noteq> 0"
      "connected adj p v" "d v = Suc (d p)"
      unfolding tree_inv_def by blast
    have "?par ! nat v = p" using p(2) old[OF v(1) vv] by simp
    moreover have "?vis ! nat p \<noteq> 0" using vis'[OF p(1)] p(3) by simp
    moreover have "?d v = Suc (?d p)" using p(5) False old[OF p(1,3)] by simp
    ultimately show ?thesis using p(1,4) by blast
  qed
  have "?vis ! nat s \<noteq> 0" using vis'[OF s(1)] s(2) by simp
  moreover have "?par ! nat s = - 1" using s(3) sj by simp
  moreover have "?d s = 0" using s(4) sj by simp
  ultimately show ?thesis
    unfolding tree_inv_def using len s(1) step by simp
qed

lemma bfs_scan_inv_skip:
  assumes "bfs_scan_inv adj n s d u j (vis, par, q)" "j < n"
    and "\<not> connected adj u (int j) \<or> vis ! j \<noteq> 0"
  shows "bfs_scan_inv adj n s d u (Suc j) (vis, par, q)"
proof -
  have "vis ! nat x \<noteq> 0" if "0 \<le> x" "x < int (Suc j)" "connected adj u x" for x
  proof (cases "x = int j")
    case True
    with that assms(3) show ?thesis by auto
  next
    case False
    with that have "x < int j" by simp
    with that assms(1) show ?thesis unfolding bfs_scan_inv_def by simp
  qed
  with assms(1) show ?thesis unfolding bfs_scan_inv_def by simp
qed

lemma bfs_scan_inv_mark:
  assumes inv: "bfs_scan_inv adj n s d u j (vis, par, q)" and j: "j < n"
    and c: "connected adj u (int j)" and z: "vis ! j = 0"
  shows "bfs_scan_inv adj n s (d(int j := Suc (d u))) u (Suc j) (vis[j := 1], par[j := u], q @ [int j])"
proof -
  let ?d = "d(int j := Suc (d u))"
  let ?vis = "vis[j := 1]"
  have t: "tree_inv adj n s d vis par" and u: "in_range n u" "vis ! nat u \<noteq> 0"
    and qe: "\<forall>x \<in> set q. in_range n x \<and> vis ! nat x \<noteq> 0 \<and> d u \<le> d x \<and> d x \<le> d u + 1"
    and so: "sorted (map d q)"
    and bd: "\<forall>w. in_range n w \<and> vis ! nat w \<noteq> 0 \<longrightarrow> d w \<le> d u + 1"
    and dn: "\<forall>w. in_range n w \<and> vis ! nat w \<noteq> 0 \<and> w \<notin> set q \<and> w \<noteq> u \<longrightarrow> level_closed adj n d vis w"
    and pre: "\<forall>x. 0 \<le> x \<and> x < int j \<and> connected adj u x \<longrightarrow> vis ! nat x \<noteq> 0"
    using inv unfolding bfs_scan_inv_def by auto
  have len: "length vis = n" using t by (simp add: tree_inv_def)
  have old: "\<And>x. in_range n x \<Longrightarrow> vis ! nat x \<noteq> 0 \<Longrightarrow> x \<noteq> int j \<and> ?d x = d x"
    using z by (auto simp: in_range_def)
  have vis': "\<And>x. in_range n x \<Longrightarrow> ?vis ! nat x \<noteq> 0 \<longleftrightarrow> (x = int j \<or> vis ! nat x \<noteq> 0)"
    using len j by (auto simp: nth_list_update in_range_def)
  have du: "?d u = d u" using old[OF u] by simp
  have dj: "?d (int j) = Suc (d u)" by simp
  have jr: "in_range n (int j)" using j by (simp add: in_range_def)
  have 1: "tree_inv adj n s ?d ?vis (par[j := u])"
    by (rule tree_inv_mark[OF t u j z c])
  have 2: "?vis ! nat u \<noteq> 0" using vis'[OF u(1)] u(2) by simp
  have 3: "\<forall>x \<in> set (q @ [int j]). in_range n x \<and> ?vis ! nat x \<noteq> 0 \<and> ?d u \<le> ?d x \<and> ?d x \<le> ?d u + 1"
  proof
    fix x assume "x \<in> set (q @ [int j])"
    then consider "x \<in> set q" | "x = int j" by auto
    then show "in_range n x \<and> ?vis ! nat x \<noteq> 0 \<and> ?d u \<le> ?d x \<and> ?d x \<le> ?d u + 1"
    proof cases
      case 1
      with qe have x: "in_range n x" "vis ! nat x \<noteq> 0" "d u \<le> d x" "d x \<le> d u + 1" by auto
      then show ?thesis using vis'[OF x(1)] old[OF x(1,2)] du by simp
    next
      case 2
      then show ?thesis using jr vis'[OF jr] du dj by simp
    qed
  qed
  have md: "map ?d q = map d q"
    using qe old by (intro map_cong) auto
  have 4: "sorted (map ?d (q @ [int j]))"
    using so qe by (auto simp: md sorted_append simp del: fun_upd_apply) (use dj in auto)
  have 5: "\<forall>w. in_range n w \<and> ?vis ! nat w \<noteq> 0 \<longrightarrow> ?d w \<le> ?d u + 1"
  proof (intro allI impI)
    fix w assume w: "in_range n w \<and> ?vis ! nat w \<noteq> 0"
    show "?d w \<le> ?d u + 1"
    proof (cases "w = int j")
      case True
      then show ?thesis using du by simp
    next
      case False
      with w vis' have "vis ! nat w \<noteq> 0" by blast
      with w bd old du show ?thesis by (metis)
    qed
  qed
  have 6: "\<forall>w. in_range n w \<and> ?vis ! nat w \<noteq> 0 \<and> w \<notin> set (q @ [int j]) \<and> w \<noteq> u
              \<longrightarrow> level_closed adj n ?d ?vis w"
  proof (intro allI impI)
    fix w assume w: "in_range n w \<and> ?vis ! nat w \<noteq> 0 \<and> w \<notin> set (q @ [int j]) \<and> w \<noteq> u"
    then have wj: "w \<noteq> int j" by auto
    with w vis' have wv: "vis ! nat w \<noteq> 0" by blast
    with w dn have lc: "level_closed adj n d vis w" by auto
    show "level_closed adj n ?d ?vis w"
      unfolding level_closed_def
    proof (intro allI impI)
      fix x assume x: "in_range n x \<and> connected adj w x"
      with lc have xv: "vis ! nat x \<noteq> 0" "d x \<le> d w + 1" unfolding level_closed_def by auto
      from x xv old[of x] old[of w] w wv vis'[of x]
      show "?vis ! nat x \<noteq> 0 \<and> ?d x \<le> ?d w + 1" by simp
    qed
  qed
  have 7: "\<forall>x. 0 \<le> x \<and> x < int (Suc j) \<and> connected adj u x \<longrightarrow> ?vis ! nat x \<noteq> 0"
  proof (intro allI impI)
    fix x assume x: "0 \<le> x \<and> x < int (Suc j) \<and> connected adj u x"
    then have xr: "in_range n x" using j by (simp add: in_range_def)
    show "?vis ! nat x \<noteq> 0"
    proof (cases "x = int j")
      case True
      then show ?thesis using vis'[OF xr] by simp
    next
      case False
      with x have "x < int j" by simp
      with x pre have "vis ! nat x \<noteq> 0" by simp
      then show ?thesis using vis'[OF xr] by simp
    qed
  qed
  show ?thesis
    unfolding bfs_scan_inv_def using 1 u(1) 2 3 4 5 6 7 by simp
qed

lemma bfs_scan_step:
  assumes sq: "square n adj" and inv: "bfs_scan_inv adj n s d u j (vis, par, q)" and j: "j < n"
  shows "bfs_scan adj n u j (vis, par, q) =
           (if connected adj u (int j) \<and> vis ! j = 0
            then bfs_scan adj n u (Suc j) (vis[j := 1], par[j := u], q @ [int j])
            else bfs_scan adj n u (Suc j) (vis, par, q))"
proof -
  have t: "tree_inv adj n s d vis par" and u: "in_range n u"
    using inv unfolding bfs_scan_inv_def by auto
  have len: "length vis = n" "length par = n" using t by (simp_all add: tree_inv_def)
  have jr: "in_range n (int j)" using j by (simp add: in_range_def)
  have m: "mat_at adj u (int j) = Inr (adj ! nat u ! j)"
    using mat_at_square[OF sq u jr] by simp
  have c: "connected adj u (int j) \<longleftrightarrow> adj ! nat u ! j \<noteq> 0"
    by (simp add: connected_def m)
  have r: "vec_at vis (int j) = Inr (vis ! j)" "vec_set vis (int j) 1 = Inr (vis[j := 1])"
    "vec_set par (int j) u = Inr (par[j := u])"
    using len j by (simp_all add: vec_at_def vec_set_def)
  show ?thesis
    by (subst bfs_scan.simps) (simp add: j m c r)
qed

lemma bfs_scan_correct:
  assumes sq: "square n adj"
  shows "bfs_scan_inv adj n s d u j st \<Longrightarrow> j \<le> n \<Longrightarrow>
         \<exists>st' d'. bfs_scan adj n u j st = Inr st' \<and> bfs_scan_inv adj n s d' u n st'"
proof (induction "n - j" arbitrary: j d st)
  case 0
  then have "j = n" by simp
  then have "bfs_scan adj n u j st = Inr st"
    by (cases st) (simp add: bfs_scan.simps)
  with 0 \<open>j = n\<close> show ?case by blast
next
  case (Suc k)
  then have j: "j < n" and k: "k = n - Suc j" and j': "Suc j \<le> n" by simp_all
  obtain vis par q where st: "st = (vis, par, q)" by (cases st)
  note inv = Suc.prems(1)[unfolded st]
  show ?case
  proof (cases "connected adj u (int j) \<and> vis ! j = 0")
    case True
    then have "bfs_scan_inv adj n s (d(int j := Suc (d u))) u (Suc j) (vis[j := 1], par[j := u], q @ [int j])"
      using bfs_scan_inv_mark[OF inv j] by simp
    from Suc.hyps(1)[OF k this j'] show ?thesis
      unfolding st bfs_scan_step[OF sq inv j] using True by auto
  next
    case False
    then have "bfs_scan_inv adj n s d u (Suc j) (vis, par, q)"
      using bfs_scan_inv_skip[OF inv j] by blast
    from Suc.hyps(1)[OF k this j'] show ?thesis
      unfolding st bfs_scan_step[OF sq inv j] using False by auto
  qed
qed

lemma bfs_inv_pop:
  assumes "bfs_inv adj n s d (vis, par, u # q)"
  shows "bfs_scan_inv adj n s d u 0 (vis, par, q)"
  using assms unfolding bfs_inv_def bfs_scan_inv_def
  by (auto simp: )

lemma bfs_scan_inv_done:
  assumes "bfs_scan_inv adj n s d u n (vis, par, q)"
  shows "bfs_inv adj n s d (vis, par, q)"
proof -
  have t: "tree_inv adj n s d vis par" and u: "in_range n u" "vis ! nat u \<noteq> 0"
    and qe: "\<forall>x \<in> set q. in_range n x \<and> vis ! nat x \<noteq> 0 \<and> d u \<le> d x \<and> d x \<le> d u + 1"
    and so: "sorted (map d q)"
    and bd: "\<forall>w. in_range n w \<and> vis ! nat w \<noteq> 0 \<longrightarrow> d w \<le> d u + 1"
    and dn: "\<forall>w. in_range n w \<and> vis ! nat w \<noteq> 0 \<and> w \<notin> set q \<and> w \<noteq> u \<longrightarrow> level_closed adj n d vis w"
    and pre: "\<forall>x. 0 \<le> x \<and> x < int n \<and> connected adj u x \<longrightarrow> vis ! nat x \<noteq> 0"
    using assms unfolding bfs_scan_inv_def by auto
  have lu: "level_closed adj n d vis u"
    unfolding level_closed_def using pre bd by (auto simp: in_range_def)
  have 4: "\<forall>w. in_range n w \<and> vis ! nat w \<noteq> 0 \<longrightarrow> (\<forall>x \<in> set q. d w \<le> d x + 1)"
  proof (intro allI impI ballI)
    fix w x assume w: "in_range n w \<and> vis ! nat w \<noteq> 0" and x: "x \<in> set q"
    have "d w \<le> d u + 1" using bd w by simp
    moreover have "d u \<le> d x" using qe x by simp
    ultimately show "d w \<le> d x + 1" by simp
  qed
  have 5: "\<forall>w. in_range n w \<and> vis ! nat w \<noteq> 0 \<and> w \<notin> set q \<longrightarrow> level_closed adj n d vis w"
    using dn lu by blast
  show ?thesis
    unfolding bfs_inv_def using t qe so 4 5 by simp
qed

lemma bfs_loop_correct:
  assumes sq: "square n adj"
  shows "bfs_inv adj n s d st \<Longrightarrow>
         \<exists>vis par d'. bfs_loop adj n st = Inr (vis, par) \<and> bfs_inv adj n s d' (vis, par, [])"
proof (induction "unvisited (fst st) + length (snd (snd st))" arbitrary: st d rule: less_induct)
  case less
  obtain vis par q where st: "st = (vis, par, q)" by (cases st)
  show ?case
  proof (cases q)
    case Nil
    then have "bfs_loop adj n st = Inr (vis, par)" by (simp add: st bfs_loop.simps)
    with less.prems st Nil show ?thesis by blast
  next
    case (Cons u q')
    have "bfs_scan_inv adj n s d u 0 (vis, par, q')"
      using less.prems unfolding st Cons by (rule bfs_inv_pop)
    from bfs_scan_correct[OF sq this] obtain st' d' where
      sc: "bfs_scan adj n u 0 (vis, par, q') = Inr st'" and inv': "bfs_scan_inv adj n s d' u n st'"
      by blast
    obtain vis' par' q'' where st': "st' = (vis', par', q'')" by (cases st')
    have m: "unvisited vis' + length q'' = unvisited vis + length q'"
      using bfs_scan_measure[OF sc[unfolded st']] .
    have b: "bfs_inv adj n s d' st'"
      using inv' unfolding st' by (rule bfs_scan_inv_done)
    have "unvisited (fst st') + length (snd (snd st')) < unvisited (fst st) + length (snd (snd st))"
      using m by (simp add: st st' Cons)
    from less.hyps[OF this b] obtain visf parf df where
      "bfs_loop adj n st' = Inr (visf, parf)" "bfs_inv adj n s df (visf, parf, [])" by blast
    moreover have "bfs_loop adj n st = bfs_loop adj n st'"
      by (simp add: st Cons bfs_loop.simps[of adj n vis par] sc)
    ultimately show ?thesis by auto
  qed
qed

lemma graph_ok_square: "graph_ok g \<Longrightarrow> square (nat (m_vertices g)) (m_adj_matrix g)"
  by (simp add: graph_ok_def square_def)

lemma tree_inv_init:
  assumes "in_range n s"
  shows "tree_inv adj n s (\<lambda>_. 0) ((replicate n 0)[nat s := 1]) (replicate n (- 1))"
proof -
  have sn: "nat s < n" using assms by (auto simp: in_range_def)
  have "((replicate n 0)[nat s := 1]) ! nat v = (0::int)" if "in_range n v" "v \<noteq> s" for v
    using that assms by (auto simp: in_range_def nth_list_update)
  then show ?thesis
    unfolding tree_inv_def using assms sn by auto
qed

lemma bfs_inv_init:
  assumes "in_range n s"
  shows "bfs_inv adj n s (\<lambda>_. 0) ((replicate n 0)[nat s := 1], replicate n (- 1), [s])"
proof -
  have sn: "nat s < n" using assms by (auto simp: in_range_def)
  have z: "((replicate n 0)[nat s := 1]) ! nat v = (0::int)" if "in_range n v" "v \<noteq> s" for v
    using that assms by (auto simp: in_range_def nth_list_update)
  have "((replicate n 0)[nat s := 1]) ! nat s \<noteq> (0::int)" using sn by simp
  then show ?thesis
    unfolding bfs_inv_def using tree_inv_init[OF assms] assms z by auto
qed

text \<open>
  C2: for a graph of the class and \<open>source\<close>, \<open>target\<close> in \<open>[0, vertexCount)\<close>,
  \<open>bfs_shortest_path\<close> returns a sequence \<open>p\<close>; \<open>p\<close> is nonempty if and only if \<open>target\<close> is
  reachable from \<open>source\<close> (so it is empty when \<open>target\<close> is unreachable); when nonempty, \<open>p\<close>
  starts with \<open>source\<close>, ends with \<open>target\<close>, each consecutive pair is connected by a nonzero
  matrix entry, and no path from \<open>source\<close> to \<open>target\<close> has fewer vertices, that is fewer
  edges.
\<close>

theorem bfs_shortest_path_correct:
  assumes ok: "graph_ok g"
    and src: "0 \<le> source" "source < m_vertices g"
    and tgt: "0 \<le> target" "target < m_vertices g"
  shows "\<exists>p. bfs_shortest_path g source target = Some (Inr p) \<and>
           (p \<noteq> [] \<longleftrightarrow> (\<exists>p'. is_path (m_adj_matrix g) source target p')) \<and>
           (p \<noteq> [] \<longrightarrow>
              is_path (m_adj_matrix g) source target p \<and>
              (\<forall>p'. is_path (m_adj_matrix g) source target p' \<longrightarrow> length p \<le> length p'))"
proof -
  let ?adj = "m_adj_matrix g"
  let ?n = "nat (m_vertices g)"
  have n: "length ?adj = ?n" using ok by (simp add: graph_ok_def)
  have sq: "square ?n ?adj" using ok by (rule graph_ok_square)
  have sr: "in_range ?n source" and tr: "in_range ?n target"
    using src tgt by (simp_all add: in_range_def)
  let ?vis0 = "(replicate ?n (0::int))[nat source := 1]"
  have v0: "vec_set (replicate ?n 0) source 1 = Inr ?vis0"
    using sr by (simp add: vec_set_def in_range_def)
  from bfs_loop_correct[OF sq bfs_inv_init[OF sr]] obtain vis par d where
    lp: "bfs_loop ?adj ?n (?vis0, replicate ?n (- 1), [source]) = Inr (vis, par)"
    and inv: "bfs_inv ?adj ?n source d (vis, par, [])" by blast
  have t: "tree_inv ?adj ?n source d vis par"
    and cl: "\<forall>w. in_range ?n w \<and> vis ! nat w \<noteq> 0 \<longrightarrow> level_closed ?adj ?n d vis w"
    using inv unfolding bfs_inv_def by auto
  have len: "length vis = ?n" and sv: "vis ! nat source \<noteq> 0" and ds: "d source = 0"
    using t by (simp_all add: tree_inv_def)
  have vt: "vec_at vis target = Inr (vis ! nat target)"
    using tr len by (simp add: vec_at_def in_range_def)
  have unf: "bfs_shortest_path g source target =
       (if vis ! nat target \<noteq> 0 then
          (case path_loop par target [] of
             None \<Rightarrow> None
           | Some (Inl e) \<Rightarrow> Some (Inl e)
           | Some (Inr path) \<Rightarrow> Some (Inr (rev path)))
        else Some (Inr []))"
    by (simp add: bfs_shortest_path_def get_adj_matrix_def n v0 lp vt)
  show ?thesis
  proof (cases "vis ! nat target \<noteq> 0")
    case True
    from path_loop_tree[OF t tr True, of "[]"] obtain p where
      pl: "path_loop par target [] = Some (Inr (rev p))" and ip: "is_path ?adj source target p"
      and lp: "length p = Suc (d target)" by auto
    have res: "bfs_shortest_path g source target = Some (Inr p)"
      using True by (simp add: unf pl)
    have ne: "p \<noteq> []" using ip by (simp add: is_path_def)
    have mn: "length p \<le> length p'" if "is_path ?adj source target p'" for p'
    proof -
      from that have w: "walk ?adj p'" "p' \<noteq> []" "hd p' = source" "last p' = target"
        by (simp_all add: is_path_def)
      from walk_level_closed[OF sq cl w(1,2)] sr sv w(3,4)
      have "d target + 1 \<le> d source + length p'" by simp
      then show ?thesis using lp ds by simp
    qed
    from res ne ip mn show ?thesis by blast
  next
    case False
    then have res: "bfs_shortest_path g source target = Some (Inr [])"
      by (simp add: unf)
    have "\<not> is_path ?adj source target p'" for p'
    proof
      assume "is_path ?adj source target p'"
      then have w: "walk ?adj p'" "p' \<noteq> []" "hd p' = source" "last p' = target"
        by (simp_all add: is_path_def)
      have cl': "\<forall>w. in_range ?n w \<and> vis ! nat w \<noteq> 0 \<longrightarrow> closed ?adj ?n vis w"
        using cl level_closed_closed by blast
      from walk_closed[OF sq cl' w(1,2)] sr sv w(3,4)
      have "vis ! nat target \<noteq> 0" by simp
      with False show False by simp
    qed
    with res show ?thesis by simp
  qed
qed

lemma dfs_scan_inv_skip:
  assumes inv: "dfs_scan_inv adj n s t d u j (vis, par, stk)" and j: "j < n"
    and sk: "\<not> connected adj u (int j) \<or> vis ! j \<noteq> 0"
  shows "dfs_scan_inv adj n s t d u (Suc j) (vis, par, stk)"
proof -
  have t: "tree_inv adj n s d vis par" and u: "in_range n u" "vis ! nat u \<noteq> 0"
    and se: "\<forall>x \<in> set stk. in_range n x \<and> vis ! nat x \<noteq> 0"
    and dj: "vis ! nat t \<noteq> 0 \<or>
        ((\<forall>w. in_range n w \<and> vis ! nat w \<noteq> 0 \<and> w \<notin> set stk \<and> w \<noteq> u \<longrightarrow> closed adj n vis w) \<and>
         (\<forall>x. 0 \<le> x \<and> x < int j \<and> connected adj u x \<longrightarrow> vis ! nat x \<noteq> 0))"
    using inv unfolding dfs_scan_inv_def by simp_all
  have "vis ! nat t \<noteq> 0 \<or>
        ((\<forall>w. in_range n w \<and> vis ! nat w \<noteq> 0 \<and> w \<notin> set stk \<and> w \<noteq> u \<longrightarrow> closed adj n vis w) \<and>
         (\<forall>x. 0 \<le> x \<and> x < int (Suc j) \<and> connected adj u x \<longrightarrow> vis ! nat x \<noteq> 0))"
  proof (cases "vis ! nat t \<noteq> 0")
    case True
    then show ?thesis by simp
  next
    case False
    with dj have
      dn: "\<forall>w. in_range n w \<and> vis ! nat w \<noteq> 0 \<and> w \<notin> set stk \<and> w \<noteq> u \<longrightarrow> closed adj n vis w"
      and pre: "\<forall>x. 0 \<le> x \<and> x < int j \<and> connected adj u x \<longrightarrow> vis ! nat x \<noteq> 0" by simp_all
    have "vis ! nat x \<noteq> 0" if x: "0 \<le> x \<and> x < int (Suc j) \<and> connected adj u x" for x
    proof (cases "x = int j")
      case True
      with x sk show ?thesis by auto
    next
      case False
      with x have "x < int j" by simp
      with x pre show ?thesis by simp
    qed
    with dn show ?thesis by blast
  qed
  with t u se show ?thesis unfolding dfs_scan_inv_def by simp
qed

lemma dfs_scan_inv_mark:
  assumes inv: "dfs_scan_inv adj n s t d u j (vis, par, stk)" and j: "j < n"
    and c: "connected adj u (int j)" and z: "vis ! j = 0"
    and j': "int j = t \<or> j' = Suc j"
  shows "dfs_scan_inv adj n s t (d(int j := Suc (d u))) u j' (vis[j := 1], par[j := u], int j # stk)"
proof -
  let ?d = "d(int j := Suc (d u))"
  let ?vis = "vis[j := 1]"
  have t: "tree_inv adj n s d vis par" and u: "in_range n u" "vis ! nat u \<noteq> 0"
    and se: "\<forall>x \<in> set stk. in_range n x \<and> vis ! nat x \<noteq> 0"
    and dj: "vis ! nat t \<noteq> 0 \<or>
        ((\<forall>w. in_range n w \<and> vis ! nat w \<noteq> 0 \<and> w \<notin> set stk \<and> w \<noteq> u \<longrightarrow> closed adj n vis w) \<and>
         (\<forall>x. 0 \<le> x \<and> x < int j \<and> connected adj u x \<longrightarrow> vis ! nat x \<noteq> 0))"
    using inv unfolding dfs_scan_inv_def by auto
  have len: "length vis = n" using t by (simp add: tree_inv_def)
  have vis': "\<And>x. in_range n x \<Longrightarrow> ?vis ! nat x \<noteq> 0 \<longleftrightarrow> (x = int j \<or> vis ! nat x \<noteq> 0)"
    using len j by (auto simp: nth_list_update in_range_def)
  have jr: "in_range n (int j)" using j by (simp add: in_range_def)
  have 1: "tree_inv adj n s ?d ?vis (par[j := u])"
    by (rule tree_inv_mark[OF t u j z c])
  have 2: "?vis ! nat u \<noteq> 0" using vis'[OF u(1)] u(2) by simp
  have "?vis ! nat (int j) \<noteq> 0" using vis'[OF jr] by simp
  then have 3: "\<forall>x \<in> set (int j # stk). in_range n x \<and> ?vis ! nat x \<noteq> 0"
  proof -
    assume a: "?vis ! nat (int j) \<noteq> 0"
    have "in_range n x \<and> ?vis ! nat x \<noteq> 0" if "x \<in> set stk" for x
    proof -
      from se that have x: "in_range n x" "vis ! nat x \<noteq> 0" by auto
      then show ?thesis using vis'[OF x(1)] by simp
    qed
    with a jr show ?thesis by simp
  qed
  have 4: "?vis ! nat t \<noteq> 0 \<or>
        ((\<forall>w. in_range n w \<and> ?vis ! nat w \<noteq> 0 \<and> w \<notin> set (int j # stk) \<and> w \<noteq> u \<longrightarrow> closed adj n ?vis w) \<and>
         (\<forall>x. 0 \<le> x \<and> x < int j' \<and> connected adj u x \<longrightarrow> ?vis ! nat x \<noteq> 0))"
  proof (cases "vis ! nat t \<noteq> 0 \<or> int j = t")
    case True
    then have "?vis ! nat t \<noteq> 0" using len j by (auto simp: nth_list_update)
    then show ?thesis by simp
  next
    case False
    with j' have js: "j' = Suc j" by simp
    from False dj have
      dn: "\<forall>w. in_range n w \<and> vis ! nat w \<noteq> 0 \<and> w \<notin> set stk \<and> w \<noteq> u \<longrightarrow> closed adj n vis w"
      and pre: "\<forall>x. 0 \<le> x \<and> x < int j \<and> connected adj u x \<longrightarrow> vis ! nat x \<noteq> 0" by auto
    have a: "closed adj n ?vis w"
      if w: "in_range n w \<and> ?vis ! nat w \<noteq> 0 \<and> w \<notin> set (int j # stk) \<and> w \<noteq> u" for w
    proof -
      from w have "w \<noteq> int j" by auto
      with w vis' have "vis ! nat w \<noteq> 0" by blast
      with w dn have "closed adj n vis w" by auto
      then show ?thesis unfolding closed_def using vis' by blast
    qed
    have b: "?vis ! nat x \<noteq> 0" if x: "0 \<le> x \<and> x < int j' \<and> connected adj u x" for x
    proof -
      have xr: "in_range n x" using x j js by (simp add: in_range_def)
      show ?thesis
      proof (cases "x = int j")
        case True
        then show ?thesis using vis'[OF xr] by simp
      next
        case False
        with x js have "x < int j" by simp
        with x pre have "vis ! nat x \<noteq> 0" by simp
        then show ?thesis using vis'[OF xr] by simp
      qed
    qed
    from a b show ?thesis by blast
  qed
  show ?thesis
    unfolding dfs_scan_inv_def using 1 u(1) 2 3 4 by simp
qed

lemma dfs_scan_step:
  assumes sq: "square n adj" and inv: "dfs_scan_inv adj n s t d u j (vis, par, stk)" and j: "j < n"
  shows "dfs_scan adj n t u j (vis, par, stk) =
           (if connected adj u (int j) \<and> vis ! j = 0
            then (if int j = t then Inr (vis[j := 1], par[j := u], int j # stk)
                  else dfs_scan adj n t u (Suc j) (vis[j := 1], par[j := u], int j # stk))
            else dfs_scan adj n t u (Suc j) (vis, par, stk))"
proof -
  have t: "tree_inv adj n s d vis par" and u: "in_range n u"
    using inv unfolding dfs_scan_inv_def by auto
  have len: "length vis = n" "length par = n" using t by (simp_all add: tree_inv_def)
  have jr: "in_range n (int j)" using j by (simp add: in_range_def)
  have m: "mat_at adj u (int j) = Inr (adj ! nat u ! j)"
    using mat_at_square[OF sq u jr] by simp
  have c: "connected adj u (int j) \<longleftrightarrow> adj ! nat u ! j \<noteq> 0"
    by (simp add: connected_def m)
  have r: "vec_at vis (int j) = Inr (vis ! j)" "vec_set vis (int j) 1 = Inr (vis[j := 1])"
    "vec_set par (int j) u = Inr (par[j := u])"
    using len j by (simp_all add: vec_at_def vec_set_def)
  show ?thesis
    by (subst dfs_scan.simps) (simp add: j m c r)
qed

lemma dfs_scan_correct:
  assumes sq: "square n adj"
  shows "dfs_scan_inv adj n s t d u j st \<Longrightarrow> j \<le> n \<Longrightarrow>
         \<exists>st' d'. dfs_scan adj n t u j st = Inr st' \<and> dfs_scan_inv adj n s t d' u n st'"
proof (induction "n - j" arbitrary: j d st)
  case 0
  then have "j = n" by simp
  then have "dfs_scan adj n t u j st = Inr st"
    by (cases st) (simp add: dfs_scan.simps)
  with 0 \<open>j = n\<close> show ?case by blast
next
  case (Suc k)
  then have j: "j < n" and k: "k = n - Suc j" and j': "Suc j \<le> n" by simp_all
  obtain vis par stk where st: "st = (vis, par, stk)" by (cases st)
  note inv = Suc.prems(1)[unfolded st]
  show ?case
  proof (cases "connected adj u (int j) \<and> vis ! j = 0")
    case True
    then have c: "connected adj u (int j)" and z: "vis ! j = 0" by simp_all
    show ?thesis
    proof (cases "int j = t")
      case jt: True
      then have "dfs_scan_inv adj n s t (d(int j := Suc (d u))) u n (vis[j := 1], par[j := u], int j # stk)"
        using dfs_scan_inv_mark[OF inv j c z] by simp
      then show ?thesis
        unfolding st dfs_scan_step[OF sq inv j] using True jt by auto
    next
      case False
      have "dfs_scan_inv adj n s t (d(int j := Suc (d u))) u (Suc j) (vis[j := 1], par[j := u], int j # stk)"
        using dfs_scan_inv_mark[OF inv j c z] by simp
      from Suc.hyps(1)[OF k this j'] show ?thesis
        unfolding st dfs_scan_step[OF sq inv j] using True False by auto
    qed
  next
    case False
    then have "dfs_scan_inv adj n s t d u (Suc j) (vis, par, stk)"
      using dfs_scan_inv_skip[OF inv j] by blast
    from Suc.hyps(1)[OF k this j'] show ?thesis
      unfolding st dfs_scan_step[OF sq inv j] using False by auto
  qed
qed

lemma dfs_inv_pop:
  assumes "dfs_inv adj n s t d (vis, par, u # stk)"
  shows "dfs_scan_inv adj n s t d u 0 (vis, par, stk)"
proof -
  have t: "tree_inv adj n s d vis par"
    and se: "\<forall>x \<in> set (u # stk). in_range n x \<and> vis ! nat x \<noteq> 0"
    and dj: "vis ! nat t \<noteq> 0 \<or>
        (\<forall>w. in_range n w \<and> vis ! nat w \<noteq> 0 \<and> w \<notin> set (u # stk) \<longrightarrow> closed adj n vis w)"
    using assms unfolding dfs_inv_def by simp_all
  have u: "in_range n u" "vis ! nat u \<noteq> 0" and se': "\<forall>x \<in> set stk. in_range n x \<and> vis ! nat x \<noteq> 0"
    using se by simp_all
  have "vis ! nat t \<noteq> 0 \<or>
        ((\<forall>w. in_range n w \<and> vis ! nat w \<noteq> 0 \<and> w \<notin> set stk \<and> w \<noteq> u \<longrightarrow> closed adj n vis w) \<and>
         (\<forall>x. 0 \<le> x \<and> x < int 0 \<and> connected adj u x \<longrightarrow> vis ! nat x \<noteq> 0))"
    using dj by auto
  with t u se' show ?thesis unfolding dfs_scan_inv_def by simp
qed

lemma dfs_scan_inv_done:
  assumes "dfs_scan_inv adj n s t d u n (vis, par, stk)"
  shows "dfs_inv adj n s t d (vis, par, stk)"
proof -
  have t: "tree_inv adj n s d vis par" and u: "in_range n u" "vis ! nat u \<noteq> 0"
    and se: "\<forall>x \<in> set stk. in_range n x \<and> vis ! nat x \<noteq> 0"
    and dj: "vis ! nat t \<noteq> 0 \<or>
        ((\<forall>w. in_range n w \<and> vis ! nat w \<noteq> 0 \<and> w \<notin> set stk \<and> w \<noteq> u \<longrightarrow> closed adj n vis w) \<and>
         (\<forall>x. 0 \<le> x \<and> x < int n \<and> connected adj u x \<longrightarrow> vis ! nat x \<noteq> 0))"
    using assms unfolding dfs_scan_inv_def by auto
  have "vis ! nat t \<noteq> 0 \<or>
        (\<forall>w. in_range n w \<and> vis ! nat w \<noteq> 0 \<and> w \<notin> set stk \<longrightarrow> closed adj n vis w)"
  proof (cases "vis ! nat t \<noteq> 0")
    case False
    with dj have
      dn: "\<forall>w. in_range n w \<and> vis ! nat w \<noteq> 0 \<and> w \<notin> set stk \<and> w \<noteq> u \<longrightarrow> closed adj n vis w"
      and pre: "\<forall>x. 0 \<le> x \<and> x < int n \<and> connected adj u x \<longrightarrow> vis ! nat x \<noteq> 0" by auto
    have "closed adj n vis u"
      unfolding closed_def using pre by (auto simp: in_range_def)
    with dn show ?thesis by blast
  qed simp
  with t se show ?thesis unfolding dfs_inv_def by simp
qed

lemma dfs_loop_correct:
  assumes sq: "square n adj"
  shows "dfs_inv adj n s t d st \<Longrightarrow>
         \<exists>vis par d'. dfs_loop adj n t st = Inr (vis, par) \<and> dfs_inv adj n s t d' (vis, par, [])"
proof (induction "unvisited (fst st) + length (snd (snd st))" arbitrary: st d rule: less_induct)
  case less
  obtain vis par stk where st: "st = (vis, par, stk)" by (cases st)
  show ?case
  proof (cases stk)
    case Nil
    then have "dfs_loop adj n t st = Inr (vis, par)" by (simp add: st dfs_loop.simps)
    with less.prems st Nil show ?thesis by blast
  next
    case (Cons u stk')
    have "dfs_scan_inv adj n s t d u 0 (vis, par, stk')"
      using less.prems unfolding st Cons by (rule dfs_inv_pop)
    from dfs_scan_correct[OF sq this] obtain st' d' where
      sc: "dfs_scan adj n t u 0 (vis, par, stk') = Inr st'" and inv': "dfs_scan_inv adj n s t d' u n st'"
      by blast
    obtain vis' par' stk'' where st': "st' = (vis', par', stk'')" by (cases st')
    have m: "unvisited vis' + length stk'' = unvisited vis + length stk'"
      using dfs_scan_measure[OF sc[unfolded st']] .
    have b: "dfs_inv adj n s t d' st'"
      using inv' unfolding st' by (rule dfs_scan_inv_done)
    have "unvisited (fst st') + length (snd (snd st')) < unvisited (fst st) + length (snd (snd st))"
      using m by (simp add: st st' Cons)
    from less.hyps[OF this b] obtain visf parf df where
      "dfs_loop adj n t st' = Inr (visf, parf)" "dfs_inv adj n s t df (visf, parf, [])" by blast
    moreover have "dfs_loop adj n t st = dfs_loop adj n t st'"
      by (simp add: st Cons dfs_loop.simps[of adj n t vis par] sc)
    ultimately show ?thesis by auto
  qed
qed

lemma dfs_inv_init:
  assumes "in_range n s"
  shows "dfs_inv adj n s t (\<lambda>_. 0) ((replicate n 0)[nat s := 1], replicate n (- 1), [s])"
proof -
  have sn: "nat s < n" using assms by (auto simp: in_range_def)
  have z: "((replicate n 0)[nat s := 1]) ! nat v = (0::int)" if "in_range n v" "v \<noteq> s" for v
    using that assms by (auto simp: in_range_def nth_list_update)
  have "((replicate n 0)[nat s := 1]) ! nat s \<noteq> (0::int)" using sn by simp
  then show ?thesis
    unfolding dfs_inv_def using tree_inv_init[OF assms] assms z by auto
qed

text \<open>
  C6: for a graph of the class and \<open>source\<close>, \<open>target\<close> in \<open>[0, vertexCount)\<close>,
  \<open>dfs_shortest_path\<close> returns a sequence \<open>p\<close>; \<open>p\<close> is nonempty if and only if \<open>target\<close> is
  reachable from \<open>source\<close>; when nonempty, \<open>p\<close> starts with \<open>source\<close>, ends with \<open>target\<close> and
  each consecutive pair is connected by a nonzero matrix entry.  Nothing is stated about its
  length.
\<close>

theorem dfs_shortest_path_correct:
  assumes ok: "graph_ok g"
    and src: "0 \<le> source" "source < m_vertices g"
    and tgt: "0 \<le> target" "target < m_vertices g"
  shows "\<exists>p. dfs_shortest_path g source target = Some (Inr p) \<and>
           (p \<noteq> [] \<longleftrightarrow> (\<exists>p'. is_path (m_adj_matrix g) source target p')) \<and>
           (p \<noteq> [] \<longrightarrow> is_path (m_adj_matrix g) source target p)"
proof -
  let ?adj = "m_adj_matrix g"
  let ?n = "nat (m_vertices g)"
  have n: "length ?adj = ?n" using ok by (simp add: graph_ok_def)
  have sq: "square ?n ?adj" using ok by (rule graph_ok_square)
  have sr: "in_range ?n source" and tr: "in_range ?n target"
    using src tgt by (simp_all add: in_range_def)
  let ?vis0 = "(replicate ?n (0::int))[nat source := 1]"
  have v0: "vec_set (replicate ?n 0) source 1 = Inr ?vis0"
    using sr by (simp add: vec_set_def in_range_def)
  from dfs_loop_correct[OF sq dfs_inv_init[OF sr]] obtain vis par d where
    lp: "dfs_loop ?adj ?n target (?vis0, replicate ?n (- 1), [source]) = Inr (vis, par)"
    and inv: "dfs_inv ?adj ?n source target d (vis, par, [])" by blast
  have t: "tree_inv ?adj ?n source d vis par"
    and cl: "vis ! nat target \<noteq> 0 \<or> (\<forall>w. in_range ?n w \<and> vis ! nat w \<noteq> 0 \<longrightarrow> closed ?adj ?n vis w)"
    using inv unfolding dfs_inv_def by auto
  have len: "length vis = ?n" and sv: "vis ! nat source \<noteq> 0"
    using t by (simp_all add: tree_inv_def)
  have vt: "vec_at vis target = Inr (vis ! nat target)"
    using tr len by (simp add: vec_at_def in_range_def)
  have unf: "dfs_shortest_path g source target =
       (if vis ! nat target \<noteq> 0 then
          (case path_loop par target [] of
             None \<Rightarrow> None
           | Some (Inl e) \<Rightarrow> Some (Inl e)
           | Some (Inr path) \<Rightarrow> Some (Inr (rev path)))
        else Some (Inr []))"
    by (simp add: dfs_shortest_path_def get_adj_matrix_def n v0 lp vt)
  show ?thesis
  proof (cases "vis ! nat target \<noteq> 0")
    case True
    from path_loop_tree[OF t tr True, of "[]"] obtain p where
      pl: "path_loop par target [] = Some (Inr (rev p))" and ip: "is_path ?adj source target p"
      by auto
    have res: "dfs_shortest_path g source target = Some (Inr p)"
      using True by (simp add: unf pl)
    have ne: "p \<noteq> []" using ip by (simp add: is_path_def)
    from res ne ip show ?thesis by blast
  next
    case False
    then have res: "dfs_shortest_path g source target = Some (Inr [])"
      by (simp add: unf)
    from False cl have cl': "\<forall>w. in_range ?n w \<and> vis ! nat w \<noteq> 0 \<longrightarrow> closed ?adj ?n vis w"
      by simp
    have "\<not> is_path ?adj source target p'" for p'
    proof
      assume "is_path ?adj source target p'"
      then have w: "walk ?adj p'" "p' \<noteq> []" "hd p' = source" "last p' = target"
        by (simp_all add: is_path_def)
      from walk_closed[OF sq cl' w(1,2)] sr sv w(3,4)
      have "vis ! nat target \<noteq> 0" by simp
      with False show False by simp
    qed
    with res show ?thesis by simp
  qed
qed

lemmas eval_defs = bfs_shortest_path_def dfs_shortest_path_def get_adj_matrix_def
  bfs_loop.simps bfs_scan.simps dfs_loop.simps dfs_scan.simps path_loop.simps
  mat_at_def vec_at_def vec_set_def

text \<open>
  C2 on the scenario of the specification, where \<open>BFS(0, 3)\<close> is \<open>[0, 2, 3]\<close> and
  \<open>[0, 1, 2, 3]\<close> is a longer path, and on \<open>Graph(2, false)\<close> without edges, where vertex 1 is
  unreachable from vertex 0.
\<close>

theorem bfs_shortest_path_correct_witness:
  "graph_ok spec4 \<and> (0::int) \<le> 0 \<and> (0::int) < m_vertices spec4 \<and> (0::int) \<le> 3 \<and>
   (3::int) < m_vertices spec4 \<and>
   bfs_shortest_path spec4 0 3 = Some (Inr [0, 2, 3]) \<and>
   is_path (m_adj_matrix spec4) 0 3 [0, 2, 3] \<and>
   is_path (m_adj_matrix spec4) 0 3 [0, 1, 2, 3] \<and>
   length [0, 2, 3::int] \<le> length [0, 1, 2, 3::int] \<and>
   graph_ok graph2u \<and> (1::int) < m_vertices graph2u \<and>
   bfs_shortest_path graph2u 0 1 = Some (Inr []) \<and>
   \<not> is_path (m_adj_matrix graph2u) 0 1 [0, 1]"
proof -
  have ok: "graph_ok spec4" by (simp add: graph_ok_def spec4_def)
  have b: "(0::int) \<le> 0" "(0::int) < m_vertices spec4" "(0::int) \<le> 3" "(3::int) < m_vertices spec4"
    by (simp_all add: spec4_def)
  have ev: "bfs_shortest_path spec4 0 3 = Some (Inr [0, 2, 3])"
    by (simp add: spec4_def eval_defs)
  have lng: "is_path (m_adj_matrix spec4) 0 3 [0, 1, 2, 3]"
    by (simp add: is_path_def connected_def spec4_def mat_at_def vec_at_def)
  from bfs_shortest_path_correct[OF ok b] ev
  have p: "is_path (m_adj_matrix spec4) 0 3 [0, 2, 3]"
    and mn: "\<forall>p'. is_path (m_adj_matrix spec4) 0 3 p' \<longrightarrow> length [0, 2, 3::int] \<le> length p'"
    by auto
  from mn lng have le: "length [0, 2, 3::int] \<le> length [0, 1, 2, 3::int]" by blast
  have ok2: "graph_ok graph2u" by (simp add: graph_ok_def graph2u_def)
  have b2: "(0::int) \<le> 0" "(0::int) < m_vertices graph2u" "(0::int) \<le> 1" "(1::int) < m_vertices graph2u"
    by (simp_all add: graph2u_def)
  have ev2: "bfs_shortest_path graph2u 0 1 = Some (Inr [])"
    by (simp add: graph2u_def eval_defs)
  from bfs_shortest_path_correct[OF ok2 b2] ev2
  have np: "\<not> is_path (m_adj_matrix graph2u) 0 1 [0, 1]" by auto
  from ok b ev p lng le ok2 b2 ev2 np show ?thesis by simp
qed

text \<open>
  C6 on the graph with the edges \<open>(0,1)\<close>, \<open>(0,2)\<close>, \<open>(2,3)\<close>, \<open>(3,4)\<close>, \<open>(1,4)\<close>: \<open>DFS(0, 4)\<close>
  is the path \<open>[0, 2, 3, 4]\<close> of 3 edges although \<open>[0, 1, 4]\<close> is a path of 2 edges; and on
  \<open>Graph(2, false)\<close> without edges.
\<close>

theorem dfs_shortest_path_correct_witness:
  "graph_ok detour5 \<and> (0::int) \<le> 0 \<and> (0::int) < m_vertices detour5 \<and> (0::int) \<le> 4 \<and>
   (4::int) < m_vertices detour5 \<and>
   dfs_shortest_path detour5 0 4 = Some (Inr [0, 2, 3, 4]) \<and>
   is_path (m_adj_matrix detour5) 0 4 [0, 2, 3, 4] \<and>
   is_path (m_adj_matrix detour5) 0 4 [0, 1, 4] \<and>
   graph_ok graph2u \<and> (1::int) < m_vertices graph2u \<and>
   dfs_shortest_path graph2u 0 1 = Some (Inr []) \<and>
   \<not> is_path (m_adj_matrix graph2u) 0 1 [0, 1]"
proof -
  have ok: "graph_ok detour5" by (simp add: graph_ok_def detour5_def)
  have b: "(0::int) \<le> 0" "(0::int) < m_vertices detour5" "(0::int) \<le> 4" "(4::int) < m_vertices detour5"
    by (simp_all add: detour5_def)
  have ev: "dfs_shortest_path detour5 0 4 = Some (Inr [0, 2, 3, 4])"
    by (simp add: detour5_def eval_defs)
  have sht: "is_path (m_adj_matrix detour5) 0 4 [0, 1, 4]"
    by (simp add: is_path_def connected_def detour5_def mat_at_def vec_at_def)
  from dfs_shortest_path_correct[OF ok b] ev
  have p: "is_path (m_adj_matrix detour5) 0 4 [0, 2, 3, 4]" by auto
  have ok2: "graph_ok graph2u" by (simp add: graph_ok_def graph2u_def)
  have b2: "(0::int) \<le> 0" "(0::int) < m_vertices graph2u" "(0::int) \<le> 1" "(1::int) < m_vertices graph2u"
    by (simp_all add: graph2u_def)
  have ev2: "dfs_shortest_path graph2u 0 1 = Some (Inr [])"
    by (simp add: graph2u_def eval_defs)
  from dfs_shortest_path_correct[OF ok2 b2] ev2
  have np: "\<not> is_path (m_adj_matrix graph2u) 0 1 [0, 1]" by auto
  from ok b ev p sht ok2 b2 ev2 np show ?thesis by simp
qed

subsection \<open>Indices out of range\<close>

lemma bfs_loop_runs:
  assumes ok: "graph_ok g" and src: "0 \<le> source" "source < m_vertices g"
  shows "\<exists>vis par. bfs_loop (m_adj_matrix g) (nat (m_vertices g))
            ((replicate (nat (m_vertices g)) 0)[nat source := 1], replicate (nat (m_vertices g)) (- 1), [source])
          = Inr (vis, par) \<and> length vis = nat (m_vertices g)"
proof -
  have sr: "in_range (nat (m_vertices g)) source" using src by (simp add: in_range_def)
  from bfs_loop_correct[OF graph_ok_square[OF ok] bfs_inv_init[OF sr]]
  show ?thesis unfolding bfs_inv_def tree_inv_def by auto
qed

lemma dfs_loop_runs:
  assumes ok: "graph_ok g" and src: "0 \<le> source" "source < m_vertices g"
  shows "\<exists>vis par. dfs_loop (m_adj_matrix g) (nat (m_vertices g)) target
            ((replicate (nat (m_vertices g)) 0)[nat source := 1], replicate (nat (m_vertices g)) (- 1), [source])
          = Inr (vis, par) \<and> length vis = nat (m_vertices g)"
proof -
  have sr: "in_range (nat (m_vertices g)) source" using src by (simp add: in_range_def)
  from dfs_loop_correct[OF graph_ok_square[OF ok] dfs_inv_init[OF sr], of target]
  show ?thesis unfolding dfs_inv_def tree_inv_def by auto
qed

lemma add_edge_out_of_range:
  assumes ok: "graph_ok g" and bad: "u < 0 \<or> m_vertices g \<le> u \<or> v < 0 \<or> m_vertices g \<le> v"
  shows "add_edge g u v w = Inl UndefinedBehaviour"
proof (cases "0 \<le> u \<and> u < m_vertices g")
  case False
  then have "vec_at (m_adj_matrix g) u = Inl UndefinedBehaviour"
    using ok by (auto simp: vec_at_def graph_ok_def)
  then show ?thesis by (simp add: add_edge_def mat_set_def)
next
  case True
  with bad have v: "v < 0 \<or> m_vertices g \<le> v" by auto
  have "nat u < nat (m_vertices g)" using True by auto
  from graph_ok_row[OF ok this] have "length (m_adj_matrix g ! nat u) = nat (m_vertices g)" .
  with v ok have "vec_set (m_adj_matrix g ! nat u) v w = Inl UndefinedBehaviour"
    by (auto simp: vec_set_def graph_ok_def)
  moreover have "vec_at (m_adj_matrix g) u = Inr (m_adj_matrix g ! nat u)"
    using True ok by (simp add: vec_at_def graph_ok_def)
  ultimately show ?thesis by (simp add: add_edge_def mat_set_def)
qed

lemma bfs_out_of_range:
  assumes ok: "graph_ok g"
    and bad: "source < 0 \<or> m_vertices g \<le> source \<or> target < 0 \<or> m_vertices g \<le> target"
  shows "bfs_shortest_path g source target = Some (Inl UndefinedBehaviour)"
proof (cases "0 \<le> source \<and> source < m_vertices g")
  case False
  then have v0: "vec_set (replicate (nat (m_vertices g)) 0) source 1 = Inl UndefinedBehaviour"
    using ok by (auto simp: vec_set_def graph_ok_def)
  have n: "length (m_adj_matrix g) = nat (m_vertices g)" using ok by (simp add: graph_ok_def)
  show ?thesis by (simp add: bfs_shortest_path_def get_adj_matrix_def Let_def n v0)
next
  case True
  with bad have t: "target < 0 \<or> m_vertices g \<le> target" by auto
  from bfs_loop_runs[OF ok] True obtain vis par where
    lp: "bfs_loop (m_adj_matrix g) (nat (m_vertices g))
            ((replicate (nat (m_vertices g)) 0)[nat source := 1], replicate (nat (m_vertices g)) (- 1), [source])
          = Inr (vis, par)" and len: "length vis = nat (m_vertices g)" by blast
  have v0: "vec_set (replicate (nat (m_vertices g)) 0) source 1
            = Inr ((replicate (nat (m_vertices g)) 0)[nat source := 1])"
    using True by (simp add: vec_set_def)
  have vt: "vec_at vis target = Inl UndefinedBehaviour"
    using t len ok by (auto simp: vec_at_def graph_ok_def)
  have n: "length (m_adj_matrix g) = nat (m_vertices g)" using ok by (simp add: graph_ok_def)
  show ?thesis
    by (simp add: bfs_shortest_path_def get_adj_matrix_def Let_def n v0 lp vt)
qed

lemma dfs_out_of_range:
  assumes ok: "graph_ok g"
    and bad: "source < 0 \<or> m_vertices g \<le> source \<or> target < 0 \<or> m_vertices g \<le> target"
  shows "dfs_shortest_path g source target = Some (Inl UndefinedBehaviour)"
proof (cases "0 \<le> source \<and> source < m_vertices g")
  case False
  then have v0: "vec_set (replicate (nat (m_vertices g)) 0) source 1 = Inl UndefinedBehaviour"
    using ok by (auto simp: vec_set_def graph_ok_def)
  have n: "length (m_adj_matrix g) = nat (m_vertices g)" using ok by (simp add: graph_ok_def)
  show ?thesis by (simp add: dfs_shortest_path_def get_adj_matrix_def Let_def n v0)
next
  case True
  with bad have t: "target < 0 \<or> m_vertices g \<le> target" by auto
  from dfs_loop_runs[OF ok, of source target] True obtain vis par where
    lp: "dfs_loop (m_adj_matrix g) (nat (m_vertices g)) target
            ((replicate (nat (m_vertices g)) 0)[nat source := 1], replicate (nat (m_vertices g)) (- 1), [source])
          = Inr (vis, par)" and len: "length vis = nat (m_vertices g)" by blast
  have v0: "vec_set (replicate (nat (m_vertices g)) 0) source 1
            = Inr ((replicate (nat (m_vertices g)) 0)[nat source := 1])"
    using True by (simp add: vec_set_def)
  have vt: "vec_at vis target = Inl UndefinedBehaviour"
    using t len ok by (auto simp: vec_at_def graph_ok_def)
  have n: "length (m_adj_matrix g) = nat (m_vertices g)" using ok by (simp add: graph_ok_def)
  show ?thesis
    by (simp add: dfs_shortest_path_def get_adj_matrix_def Let_def n v0 lp vt)
qed

text \<open>
  C7, as stated, on \<open>Graph(2, false)\<close>: \<open>add_edge(2, 0, 1)\<close>, \<open>bfs_shortest_path(g, 0, 2)\<close> and
  \<open>dfs_shortest_path(g, -1, 0)\<close> index a vector outside its bounds, which is undefined
  behaviour, not a failure with a condition.
\<close>

theorem out_of_range_counterexample:
  "add_edge graph2u 2 0 1 = Inl UndefinedBehaviour \<and>
   bfs_shortest_path graph2u 0 2 = Some (Inl UndefinedBehaviour) \<and>
   dfs_shortest_path graph2u (- 1) 0 = Some (Inl UndefinedBehaviour)"
  by (simp add: graph2u_def add_edge_def mat_set_def eval_defs)

text \<open>
  C7, amended: the program has no \<open>OutOfRange\<close> condition and checks no index.  On a graph of
  the class, \<open>add_edge\<close> called with a vertex index outside \<open>[0, vertexCount)\<close>, and
  \<open>bfs_shortest_path\<close> and \<open>dfs_shortest_path\<close> called with \<open>source\<close> or \<open>target\<close> outside
  \<open>[0, vertexCount)\<close>, index a vector outside its bounds: undefined behaviour.
\<close>

theorem out_of_range_is_undefined:
  assumes "graph_ok g" and "a < 0 \<or> m_vertices g \<le> a \<or> b < 0 \<or> m_vertices g \<le> b"
  shows "add_edge g a b w = Inl UndefinedBehaviour \<and>
         bfs_shortest_path g a b = Some (Inl UndefinedBehaviour) \<and>
         dfs_shortest_path g a b = Some (Inl UndefinedBehaviour)"
  using add_edge_out_of_range[OF assms] bfs_out_of_range[OF assms] dfs_out_of_range[OF assms]
  by simp

text \<open>The amended C7 on the graph of the scenario, with the index 4 of its 4 vertices.\<close>

theorem out_of_range_is_undefined_witness:
  "graph_ok spec4 \<and> m_vertices spec4 \<le> 4 \<and>
   add_edge spec4 1 4 9 = Inl UndefinedBehaviour \<and>
   bfs_shortest_path spec4 1 4 = Some (Inl UndefinedBehaviour) \<and>
   dfs_shortest_path spec4 1 4 = Some (Inl UndefinedBehaviour)"
proof -
  have ok: "graph_ok spec4" by (simp add: graph_ok_def spec4_def)
  have b: "m_vertices spec4 \<le> 4" by (simp add: spec4_def)
  then have "(1::int) < 0 \<or> m_vertices spec4 \<le> 1 \<or> (4::int) < 0 \<or> m_vertices spec4 \<le> 4" by simp
  from out_of_range_is_undefined[OF ok this, of 9] ok b show ?thesis by simp
qed

end
